theory Spec2Isabelle
  imports Main
begin

section \<open>Text and characters\<close>

text \<open>
  A JavaScript string is a sequence of code units. The model uses \<open>string\<close>: one
  \<open>char\<close> is one code unit in the range 0..255, which covers every character the
  regular expressions and the brace counter of \<open>extension.ts\<close> name explicitly.
  A line of a document carries no line terminator.
\<close>

definition nl :: char where
  "nl = CHR 0x0A"

definition dq :: char where
  "dq = CHR 0x22"

text \<open>The class \<open>\s\<close> of a regular expression, which is also what \<open>trim()\<close> strips:
  tab, line feed, vertical tab, form feed, carriage return, space, no-break space.\<close>

definition is_space :: "char \<Rightarrow> bool" where
  "is_space c = (c \<in> set [CHR 0x09, CHR 0x0A, CHR 0x0B, CHR 0x0C, CHR 0x0D, CHR 0x20, CHR 0xA0])"

text \<open>The class \<open>\w\<close>: letters, digits and the underscore.\<close>

definition is_word :: "char \<Rightarrow> bool" where
  "is_word c = (c \<in> set ''abcdefghijklmnopqrstuvwxyzABCDEFGHIJKLMNOPQRSTUVWXYZ0123456789_'')"

text \<open>\<open>s.trim()\<close>\<close>

definition trim :: "string \<Rightarrow> string" where
  "trim s = rev (dropWhile is_space (rev (dropWhile is_space s)))"

text \<open>\<open>s.split(d)\<close> for a one-character separator: the pieces between the separators,
  at least one piece (\<open>"".split(",")\<close> is \<open>[""]\<close>).\<close>

fun split_js :: "char \<Rightarrow> string \<Rightarrow> string list" where
  "split_js d [] = [[]]"
| "split_js d (x # xs) =
     (if x = d then [] # split_js d xs
      else (case split_js d xs of [] \<Rightarrow> [[x]] | y # ys \<Rightarrow> (x # y) # ys))"

section \<open>Regular expressions with backtracking\<close>

text \<open>
  The five regular expressions of \<open>extension.ts\<close> use literal characters, the classes
  \<open>\s\<close>, \<open>\w\<close> and \<open>[^c]\<close>, greedy \<open>*\<close> and \<open>+\<close> on a single class, greedy \<open>?\<close>,
  alternation, sequence and capture groups. None has a flag. The matcher below lists
  the ways an expression matches a prefix of the text in the order in which a
  backtracking matcher tries them (greedy first, left alternative first), each with the
  capture groups it sets and the rest of the text. The first element is the match the
  engine reports.
\<close>

datatype cclass = Space | Word | Ch char | NotCh char

fun in_class :: "cclass \<Rightarrow> char \<Rightarrow> bool" where
  "in_class Space c = is_space c"
| "in_class Word c = is_word c"
| "in_class (Ch d) c = (c = d)"
| "in_class (NotCh d) c = (c \<noteq> d)"

datatype regex = Eps | One cclass | Star cclass | Plus cclass
  | Seq regex regex | Alt regex regex | Opt regex | Grp nat regex

text \<open>The capture groups of a match; a group that took no part is \<open>None\<close>
  (\<open>undefined\<close> in the match array).\<close>

type_synonym caps = "nat \<Rightarrow> string option"

text \<open>The rests of the text after \<open>k*\<close>, the longest run first.\<close>

fun star_rests :: "cclass \<Rightarrow> string \<Rightarrow> string list" where
  "star_rests k [] = [[]]"
| "star_rests k (x # xs) = (if in_class k x then star_rests k xs @ [x # xs] else [x # xs])"

fun ms :: "regex \<Rightarrow> caps \<Rightarrow> string \<Rightarrow> (caps \<times> string) list" where
  "ms Eps c s = [(c, s)]"
| "ms (One k) c s = (case s of [] \<Rightarrow> [] | x # xs \<Rightarrow> if in_class k x then [(c, xs)] else [])"
| "ms (Star k) c s = map (Pair c) (star_rests k s)"
| "ms (Plus k) c s =
     (case s of [] \<Rightarrow> [] | x # xs \<Rightarrow> if in_class k x then map (Pair c) (star_rests k xs) else [])"
| "ms (Seq a b) c s = concat (map (\<lambda>p. ms b (fst p) (snd p)) (ms a c s))"
| "ms (Alt a b) c s = ms a c s @ ms b c s"
| "ms (Opt a) c s = ms a c s @ [(c, s)]"
| "ms (Grp n a) c s =
     map (\<lambda>p. ((fst p)(n \<mapsto> take (length s - length (snd p)) s), snd p)) (ms a c s)"

definition lit :: "string \<Rightarrow> regex" where
  "lit s = foldr (\<lambda>c r. Seq (One (Ch c)) r) s Eps"

definition seqs :: "regex list \<Rightarrow> regex" where
  "seqs rs = foldr Seq rs Eps"

text \<open>\<open>text.match(r)\<close> without the \<open>g\<close> flag: the first match at the leftmost position
  where there is one, every position from 0 to the length of the text being tried.\<close>

fun search :: "regex \<Rightarrow> string \<Rightarrow> caps option" where
  "search r [] = (case ms r Map.empty [] of [] \<Rightarrow> None | p # _ \<Rightarrow> Some (fst p))"
| "search r (x # xs) =
     (case ms r Map.empty (x # xs) of [] \<Rightarrow> search r xs | p # _ \<Rightarrow> Some (fst p))"

text \<open>\<open>r.test(s)\<close> for an expression that starts with \<open>^\<close> (no \<open>m\<close> flag): a match can
  only start at position 0.\<close>

definition test_anchored :: "regex \<Rightarrow> string \<Rightarrow> bool" where
  "test_anchored r s = (ms r Map.empty s \<noteq> [])"

section \<open>The expressions of the source\<close>

definition keyword :: regex where
  "keyword = Alt (lit ''const'') (Alt (lit ''function'') (Alt (lit ''let'') (lit ''var'')))"

text \<open>\<open>/^\s*(export\s+)?(const|function|let|var)\s+(\w+)\s*=?\s*(?:async\s*)?\([^)]*\)\s*(?::\s*\w+\s*)?(?:=>|{)/\<close>\<close>

definition patternA :: regex where
  "patternA = seqs
     [Star Space, Opt (Grp 1 (seqs [lit ''export'', Plus Space])), Grp 2 keyword,
      Plus Space, Grp 3 (Plus Word), Star Space, Opt (lit ''=''), Star Space,
      Opt (seqs [lit ''async'', Star Space]),
      lit ''('', Star (NotCh (CHR '')'')), lit '')'', Star Space,
      Opt (seqs [lit '':'', Star Space, Plus Word, Star Space]),
      Alt (lit ''=>'') (lit ''{'')]"

text \<open>\<open>/^\s*(export\s+)?(?:async\s+)?function\s+(\w+)\s*\([^)]*\)/\<close>\<close>

definition patternB :: regex where
  "patternB = seqs
     [Star Space, Opt (Grp 1 (seqs [lit ''export'', Plus Space])),
      Opt (seqs [lit ''async'', Plus Space]), lit ''function'', Plus Space,
      Grp 2 (Plus Word), Star Space, lit ''('', Star (NotCh (CHR '')'')), lit '')'']"

definition functionPatterns :: "regex list" where
  "functionPatterns = [patternA, patternB]"

text \<open>\<open>/(?:function|const|let|var)\s+(\w+)|(\w+)\s*(?:=\s*(?:async\s*)?\(|:\s*\()/\<close>,
  its two alternatives named.\<close>

definition name_keyword_rx :: regex where
  "name_keyword_rx = seqs
     [Alt (lit ''function'') (Alt (lit ''const'') (Alt (lit ''let'') (lit ''var''))),
      Plus Space, Grp 1 (Plus Word)]"

definition name_tail_rx :: regex where
  "name_tail_rx = seqs
     [Star Space,
      Alt (seqs [lit ''='', Star Space, Opt (seqs [lit ''async'', Star Space]), lit ''(''])
          (seqs [lit '':'', Star Space, lit ''(''])]"

definition name_assign_rx :: regex where
  "name_assign_rx = Seq (Grp 2 (Plus Word)) name_tail_rx"

definition name_rx :: regex where
  "name_rx = Alt name_keyword_rx name_assign_rx"

text \<open>\<open>/\(([^)]*)\)/\<close>\<close>

definition params_rx :: regex where
  "params_rx = seqs [lit ''('', Grp 1 (Star (NotCh (CHR '')''))), lit '')'']"

text \<open>\<open>/\):\s*(\w+(?:<[^>]+>)?)/\<close>\<close>

definition return_rx :: regex where
  "return_rx = seqs
     [lit '')'', lit '':'', Star Space,
      Grp 1 (seqs [Plus Word, Opt (seqs [lit ''<'', Plus (NotCh (CHR ''>'')), lit ''>''])])]"

section \<open>The Extractor: parseFunctionFromText\<close>

datatype error = IllegalLine | TypeError

text \<open>\<open>FunctionInfo\<close>. The fields \<open>name\<close> and \<open>returnType\<close> are read from capture groups,
  which are \<open>undefined\<close> (\<open>None\<close>) at run time when the group took no part in the match.\<close>

record FunctionInfo =
  name :: "string option"
  params :: "string list"
  returnType :: "string option"
  body :: string

text \<open>\<open>a || b\<close> on two capture groups: \<open>a\<close> unless it is \<open>undefined\<close> or empty.\<close>

definition js_or :: "string option \<Rightarrow> string option \<Rightarrow> string option" where
  "js_or a b = (case a of None \<Rightarrow> b | Some x \<Rightarrow> if x = [] then b else Some x)"

text \<open>\<open>s.split(d)[0]\<close>\<close>

definition first_piece :: "char \<Rightarrow> string \<Rightarrow> string option" where
  "first_piece d s = (case split_js d s of [] \<Rightarrow> None | x # _ \<Rightarrow> Some x)"

text \<open>\<open>p.split(':')[0].split('=')[0].trim()\<close>; a method call on \<open>undefined\<close> throws.\<close>

definition paramName :: "string \<Rightarrow> error + string" where
  "paramName p =
     (case first_piece (CHR '':'') p of
        None \<Rightarrow> Inl TypeError
      | Some a \<Rightarrow>
          (case first_piece (CHR ''='') a of
             None \<Rightarrow> Inl TypeError
           | Some b \<Rightarrow> Inr (trim b)))"

text \<open>\<open>xs.map(f)\<close> for an \<open>f\<close> that may throw: the first error ends the map.\<close>

fun map_err :: "('a \<Rightarrow> error + 'b) \<Rightarrow> 'a list \<Rightarrow> error + 'b list" where
  "map_err f [] = Inr []"
| "map_err f (x # xs) =
     (case f x of
        Inl e \<Rightarrow> Inl e
      | Inr y \<Rightarrow> (case map_err f xs of Inl e \<Rightarrow> Inl e | Inr ys \<Rightarrow> Inr (y # ys)))"

definition parseFunctionFromText :: "string \<Rightarrow> error + FunctionInfo" where
  "parseFunctionFromText text =
     (let nameMatch = search name_rx text;
          name' = (case nameMatch of Some m \<Rightarrow> js_or (m 1) (m 2) | None \<Rightarrow> Some ''unknown'');
          paramsMatch = search params_rx text;
          paramsStr = (case paramsMatch of Some m \<Rightarrow> m 1 | None \<Rightarrow> Some '''')
      in case paramsStr of
           None \<Rightarrow> Inl TypeError
         | Some str \<Rightarrow>
             (case map_err paramName
                     (filter (\<lambda>p. length p > 0) (map trim (split_js (CHR '','') str))) of
                Inl e \<Rightarrow> Inl e
              | Inr params' \<Rightarrow>
                  (let returnMatch = search return_rx text;
                       returnType' = (case returnMatch of Some m \<Rightarrow> m 1 | None \<Rightarrow> Some ''void'')
                   in Inr \<lparr>name = name', params = params', returnType = returnType',
                           body = text\<rparr>)))"

section \<open>The Locator: detectFunctionAtCursor\<close>

text \<open>A document is the list of its lines. \<open>document.lineAt(i)\<close> wants a line number in
  \<open>[0, lineCount)\<close> and throws otherwise.\<close>

definition lineAt :: "string list \<Rightarrow> int \<Rightarrow> error + string" where
  "lineAt document i =
     (if 0 \<le> i \<and> i < int (length document) then Inr (document ! nat i) else Inl IllegalLine)"

text \<open>The inner loop over \<open>functionPatterns\<close>: does one of them match the line?\<close>

definition matchesPattern :: "string \<Rightarrow> bool" where
  "matchesPattern lineText = list_ex (\<lambda>pattern. test_anchored pattern lineText) functionPatterns"

text \<open>The backward loop \<open>for (i = cursorLine; i >= Math.max(0, cursorLine - 20); i--)\<close>:
  the start line when a line matches, \<open>None\<close> when the loop ends with
  \<open>foundFunction\<close> still false.\<close>

function findStart :: "string list \<Rightarrow> nat \<Rightarrow> int \<Rightarrow> error + nat option" where
  "findStart document cursorLine i =
     (if i \<ge> max 0 (int cursorLine - 20) then
        (case lineAt document i of
           Inl e \<Rightarrow> Inl e
         | Inr lineText \<Rightarrow>
             if matchesPattern lineText then Inr (Some (nat i))
             else findStart document cursorLine (i - 1))
      else Inr None)"
  by pat_completeness auto
termination
  by (relation "measure (\<lambda>(document, cursorLine, i). nat (i + 1))") auto

text \<open>The brace counter over the characters of one line.\<close>

definition countBraces :: "string \<Rightarrow> int \<Rightarrow> int" where
  "countBraces lineText braceCount =
     fold (\<lambda>char n. let n1 = (if char = CHR ''{'' then n + 1 else n)
                     in if char = CHR ''}'' then n1 - 1 else n1)
          lineText braceCount"

record scan =
  braceCount :: int
  endLine :: nat
  functionText :: string

text \<open>The forward loop \<open>for (i = startLine; i < document.lineCount; i++)\<close> with its
  two \<open>break\<close>s. The loop test keeps \<open>i\<close> below \<open>lineCount\<close>, so \<open>lineAt(i)\<close> is in
  range here. The state holds the three variables the loop updates.\<close>

function forwardScan :: "string list \<Rightarrow> nat \<Rightarrow> nat \<Rightarrow> scan \<Rightarrow> scan" where
  "forwardScan document startLine i st =
     (if i < length document then
        (let lineText = document ! i;
             st1 = st\<lparr>functionText := functionText st @ lineText @ [nl],
                      braceCount := countBraces lineText (braceCount st)\<rparr>
         in if braceCount st1 = 0 \<and> CHR ''{'' \<in> set lineText then st1\<lparr>endLine := i\<rparr>
            else if int i - int startLine > 100 then st1
            else forwardScan document startLine (i + 1) st1)
      else st)"
  by pat_completeness auto
termination
  by (relation "measure (\<lambda>(document, startLine, i, st). length document - i)") auto

definition scanFrom :: "string list \<Rightarrow> nat \<Rightarrow> scan" where
  "scanFrom document startLine =
     forwardScan document startLine startLine
       \<lparr>braceCount = 0, endLine = startLine, functionText = []\<rparr>"

definition detectFunctionAtCursor ::
  "string list \<Rightarrow> nat \<Rightarrow> error + (FunctionInfo \<times> nat) option" where
  "detectFunctionAtCursor document cursorLine =
     (case findStart document cursorLine (int cursorLine) of
        Inl e \<Rightarrow> Inl e
      | Inr None \<Rightarrow> Inr None
      | Inr (Some startLine) \<Rightarrow>
          (case parseFunctionFromText (functionText (scanFrom document startLine)) of
             Inl e \<Rightarrow> Inl e
           | Inr functionInfo \<Rightarrow> Inr (Some (functionInfo, startLine))))"

section \<open>The Formatter: insertDocumentation\<close>

text \<open>The comment block that \<open>insertDocumentation\<close> builds in \<open>doc\<close>.\<close>

definition buildDoc :: "string \<Rightarrow> string \<Rightarrow> FunctionInfo \<Rightarrow> string" where
  "buildDoc indent summary functionInfo =
     (let doc0 = indent @ ''/**'' @ [nl];
          doc1 = doc0 @ indent @ '' * <summary>'' @ [nl];
          doc2 = doc1 @ indent @ '' * '' @ summary @ [nl];
          doc3 = doc2 @ indent @ '' * </summary>'' @ [nl];
          doc4 = foldl (\<lambda>doc param.
                    if param \<noteq> [] \<and> param \<noteq> ''...''
                    then doc @ indent @ '' * <param name='' @ [dq] @ param @ [dq]
                           @ ''></param>'' @ [nl]
                    else doc) doc3 (params functionInfo);
          doc5 = (if returnType functionInfo \<noteq> Some ''void''
                  then doc4 @ indent @ '' * <returns></returns>'' @ [nl] else doc4)
      in doc5 @ indent @ '' */'' @ [nl])"

text \<open>\<open>lineText.match(/^\s*/)?.[0] || ''\<close>: group 0 is the whole match.\<close>

definition indentOf :: "string \<Rightarrow> string" where
  "indentOf lineText =
     (case ms (Grp 0 (Star Space)) Map.empty lineText of
        [] \<Rightarrow> []
      | p # _ \<Rightarrow> (case fst p 0 of None \<Rightarrow> [] | Some s \<Rightarrow> s))"

text \<open>The edit that \<open>insertDocumentation\<close> applies: the text inserted at column 0 of
  the line.\<close>

definition insertDocumentation ::
  "string list \<Rightarrow> int \<Rightarrow> string \<Rightarrow> FunctionInfo \<Rightarrow> error + (int \<times> string)" where
  "insertDocumentation document line summary functionInfo =
     (case lineAt document line of
        Inl e \<Rightarrow> Inl e
      | Inr lineText \<Rightarrow> Inr (line, buildDoc (indentOf lineText) summary functionInfo))"

section \<open>Notions used to state the properties\<close>

text \<open>The text of a list of lines, each followed by a line feed: what the forward scan
  accumulates in \<open>functionText\<close>.\<close>

definition lines_text :: "string list \<Rightarrow> string" where
  "lines_text ls = concat (map (\<lambda>l. l @ [nl]) ls)"

text \<open>The running brace count after line \<open>j\<close>, for a count \<open>bc\<close> before line \<open>i\<close>.\<close>

definition runFrom :: "string list \<Rightarrow> nat \<Rightarrow> int \<Rightarrow> nat \<Rightarrow> int" where
  "runFrom document i bc j = countBraces (concat (take (j + 1 - i) (drop i document))) bc"

text \<open>The stop condition of the forward scan at line \<open>j\<close>: the running count of the lines
  from the declaration line to \<open>j\<close> is zero and line \<open>j\<close> contains an opening brace.\<close>

definition stopsAt :: "string list \<Rightarrow> nat \<Rightarrow> nat \<Rightarrow> bool" where
  "stopsAt document startLine j =
     (runFrom document startLine 0 j = 0 \<and> CHR ''{'' \<in> set (document ! j))"

text \<open>The brace balance of a text: its opening braces minus its closing braces, counted
  without reference to the code. The balance after line \<open>j\<close> is that of the lines from
  the declaration line to \<open>j\<close>, and a stop line is a line with an opening brace after
  which the balance is zero.\<close>

definition braceBalance :: "string \<Rightarrow> int" where
  "braceBalance s = int (count_list s (CHR ''{'')) - int (count_list s (CHR ''}''))"

definition balanceAfter :: "string list \<Rightarrow> nat \<Rightarrow> nat \<Rightarrow> int" where
  "balanceAfter document startLine j =
     braceBalance (concat (take (j + 1 - startLine) (drop startLine document)))"

definition stopLine :: "string list \<Rightarrow> nat \<Rightarrow> nat \<Rightarrow> bool" where
  "stopLine document startLine j =
     (balanceAfter document startLine j = 0 \<and> CHR ''{'' \<in> set (document ! j))"

text \<open>The words an expression matches, in the usual sense, and the texts that contain
  a match somewhere.\<close>

fun lang :: "regex \<Rightarrow> string set" where
  "lang Eps = {[]}"
| "lang (One k) = {[x] | x. in_class k x}"
| "lang (Star k) = {u. \<forall>x\<in>set u. in_class k x}"
| "lang (Plus k) = {u. u \<noteq> [] \<and> (\<forall>x\<in>set u. in_class k x)}"
| "lang (Seq a b) = {u @ v | u v. u \<in> lang a \<and> v \<in> lang b}"
| "lang (Alt a b) = lang a \<union> lang b"
| "lang (Opt a) = insert [] (lang a)"
| "lang (Grp n a) = lang a"

definition contains_match :: "regex \<Rightarrow> string \<Rightarrow> bool" where
  "contains_match r s = (\<exists>pre u post. s = pre @ u @ post \<and> u \<in> lang r)"

text \<open>The second name alternative as the specification words it: an identifier
  followed by an opening parenthesis, with optional whitespace and an optional
  \<open>async\<close> in between. It is only used to state what the code does not do.\<close>

definition spec_name_call_rx :: regex where
  "spec_name_call_rx = seqs
     [Grp 2 (Plus Word), Star Space, Opt (seqs [lit ''async'', Star Space]), lit ''('']"

text \<open>The capture groups that occur in an expression.\<close>

fun groups :: "regex \<Rightarrow> nat set" where
  "groups (Seq a b) = groups a \<union> groups b"
| "groups (Alt a b) = groups a \<union> groups b"
| "groups (Opt a) = groups a"
| "groups (Grp n a) = insert n (groups a)"
| "groups _ = {}"

section \<open>The forward scan\<close>

declare forwardScan.simps [simp del]
declare findStart.simps [simp del]

lemma lines_text_Nil [simp]: "lines_text [] = []"
  by (simp add: lines_text_def)

lemma lines_text_Cons [simp]: "lines_text (l # ls) = l @ nl # lines_text ls"
  by (simp add: lines_text_def)

lemma lines_text_append: "lines_text (xs @ ys) = lines_text xs @ lines_text ys"
  by (simp add: lines_text_def)

lemma countBraces_append: "countBraces (a @ b) n = countBraces b (countBraces a n)"
  by (simp add: countBraces_def)

lemma countBraces_Nil [simp]: "countBraces [] n = n"
  by (simp add: countBraces_def)

lemma take_Suc_drop: "i < length xs \<Longrightarrow> take (Suc m) (drop i xs) = xs ! i # take m (drop (Suc i) xs)"
  by (simp add: Cons_nth_drop_Suc [symmetric])

lemma runFrom_self: "i < length document \<Longrightarrow> runFrom document i bc i = countBraces (document ! i) bc"
  by (simp add: runFrom_def take_Suc_drop)

lemma runFrom_step:
  "i < j \<Longrightarrow> i < length document \<Longrightarrow>
   runFrom document i bc j = runFrom document (Suc i) (countBraces (document ! i) bc) j"
proof -
  assume a: "i < j" "i < length document"
  then have "j + 1 - i = Suc (j + 1 - Suc i)" by arith
  then show ?thesis using a
    by (simp add: runFrom_def take_Suc_drop countBraces_append)
qed

lemma forwardScan_stop:
  "startLine \<le> i \<Longrightarrow> i \<le> j \<Longrightarrow> j < length document \<Longrightarrow> j \<le> startLine + 101 \<Longrightarrow>
   runFrom document i (braceCount st) j = 0 \<Longrightarrow> CHR ''{'' \<in> set (document ! j) \<Longrightarrow>
   (\<And>k. i \<le> k \<Longrightarrow> k < j \<Longrightarrow>
      \<not> (runFrom document i (braceCount st) k = 0 \<and> CHR ''{'' \<in> set (document ! k))) \<Longrightarrow>
   forwardScan document startLine i st =
     st\<lparr>functionText := functionText st @ lines_text (take (j + 1 - i) (drop i document)),
        braceCount := 0, endLine := j\<rparr>"
proof (induction "j - i" arbitrary: i st)
  case 0
  then have ij: "i = j" by simp
  from 0 ij have "countBraces (document ! j) (braceCount st) = 0"
    by (simp add: runFrom_self)
  with 0 ij show ?case
    by (subst forwardScan.simps) (simp add: take_Suc_drop Let_def)
next
  case (Suc d)
  then have lt: "i < j" and il: "i < length document" by arith+
  let ?st1 = "st\<lparr>functionText := functionText st @ document ! i @ [nl],
                 braceCount := countBraces (document ! i) (braceCount st)\<rparr>"
  have nostop: "\<not> (countBraces (document ! i) (braceCount st) = 0 \<and> CHR ''{'' \<in> set (document ! i))"
    using Suc.prems(7) [of i] lt il by (simp add: runFrom_self)
  have nocap: "\<not> (int i - int startLine > 100)" using lt Suc.prems(4) by arith
  have step: "forwardScan document startLine i st = forwardScan document startLine (Suc i) ?st1"
    using il nostop nocap by (subst forwardScan.simps) (auto simp: Let_def)
  have d: "d = j - Suc i" using Suc.hyps(2) by arith
  have r0: "runFrom document (Suc i) (braceCount ?st1) j = 0"
    using Suc.prems(5) lt il by (simp add: runFrom_step)
  have nk: "\<And>k. Suc i \<le> k \<Longrightarrow> k < j \<Longrightarrow>
      \<not> (runFrom document (Suc i) (braceCount ?st1) k = 0 \<and> CHR ''{'' \<in> set (document ! k))"
  proof -
    fix k assume k: "Suc i \<le> k" "k < j"
    then have "runFrom document i (braceCount st) k = runFrom document (Suc i) (braceCount ?st1) k"
      using il by (simp add: runFrom_step)
    with Suc.prems(7) [of k] k show "\<not> (runFrom document (Suc i) (braceCount ?st1) k = 0 \<and> CHR ''{'' \<in> set (document ! k))"
      by simp
  qed
  have "forwardScan document startLine (Suc i) ?st1 =
     ?st1\<lparr>functionText := functionText ?st1 @ lines_text (take (j + 1 - Suc i) (drop (Suc i) document)),
        braceCount := 0, endLine := j\<rparr>"
    using Suc.hyps(1) [OF d _ _ Suc.prems(3) Suc.prems(4) r0 Suc.prems(6) nk] lt Suc.prems(1)
    by simp
  moreover have "j + 1 - i = Suc (j + 1 - Suc i)" using lt by arith
  ultimately show ?case using step il
    by (simp add: take_Suc_drop)
qed

lemma forwardScan_nostop:
  "startLine \<le> i \<Longrightarrow> i \<le> startLine + 101 \<Longrightarrow>
   (\<And>k. i \<le> k \<Longrightarrow> k < length document \<Longrightarrow> k \<le> startLine + 101 \<Longrightarrow>
      \<not> (runFrom document i (braceCount st) k = 0 \<and> CHR ''{'' \<in> set (document ! k))) \<Longrightarrow>
   forwardScan document startLine i st =
     st\<lparr>functionText := functionText st @ lines_text (take (startLine + 102 - i) (drop i document)),
        braceCount := countBraces (concat (take (startLine + 102 - i) (drop i document))) (braceCount st)\<rparr>"
proof (induction "startLine + 101 - i" arbitrary: i st)
  case 0
  then have i: "i = startLine + 101" by arith
  show ?case
  proof (cases "i < length document")
    case True
    have ns: "\<not> (countBraces (document ! i) (braceCount st) = 0 \<and> CHR ''{'' \<in> set (document ! i))"
      using "0.prems"(3) [of i] True i by (simp add: runFrom_self)
    have cap: "int i - int startLine > 100" using i by simp
    have t: "startLine + 102 - i = Suc 0" using i by simp
    show ?thesis using True ns cap
      by (subst forwardScan.simps) (auto simp: Let_def t take_Suc_drop)
  next
    case False
    then show ?thesis by (subst forwardScan.simps) simp
  qed
next
  case (Suc d)
  then have lt: "i < startLine + 101" by arith
  show ?case
  proof (cases "i < length document")
    case False
    then show ?thesis by (subst forwardScan.simps) simp
  next
    case True
    let ?st1 = "st\<lparr>functionText := functionText st @ document ! i @ [nl],
                 braceCount := countBraces (document ! i) (braceCount st)\<rparr>"
    have ns: "\<not> (countBraces (document ! i) (braceCount st) = 0 \<and> CHR ''{'' \<in> set (document ! i))"
      using Suc.prems(3) [of i] True lt by (simp add: runFrom_self)
    have nocap: "\<not> (int i - int startLine > 100)" using lt by arith
    have step: "forwardScan document startLine i st = forwardScan document startLine (Suc i) ?st1"
      using True ns nocap by (subst forwardScan.simps) (auto simp: Let_def)
    have d: "d = startLine + 101 - Suc i" using Suc.hyps(2) by arith
    have nk: "\<And>k. Suc i \<le> k \<Longrightarrow> k < length document \<Longrightarrow> k \<le> startLine + 101 \<Longrightarrow>
      \<not> (runFrom document (Suc i) (braceCount ?st1) k = 0 \<and> CHR ''{'' \<in> set (document ! k))"
    proof -
      fix k assume k: "Suc i \<le> k" "k < length document" "k \<le> startLine + 101"
      then have "runFrom document i (braceCount st) k = runFrom document (Suc i) (braceCount ?st1) k"
        using True by (simp add: runFrom_step)
      with Suc.prems(3) [of k] k
      show "\<not> (runFrom document (Suc i) (braceCount ?st1) k = 0 \<and> CHR ''{'' \<in> set (document ! k))"
        by simp
    qed
    have ih: "forwardScan document startLine (Suc i) ?st1 =
       ?st1\<lparr>functionText := functionText ?st1 @ lines_text (take (startLine + 102 - Suc i) (drop (Suc i) document)),
        braceCount := countBraces (concat (take (startLine + 102 - Suc i) (drop (Suc i) document))) (braceCount ?st1)\<rparr>"
      using Suc.hyps(1) [OF d _ _ nk] lt Suc.prems(1) by simp
    have t: "startLine + 102 - i = Suc (startLine + 102 - Suc i)" using lt by arith
    show ?thesis using step ih True
      by (simp add: t take_Suc_drop countBraces_append)
  qed
qed

lemma forwardScan_bound:
  "startLine \<le> i \<Longrightarrow> i \<le> startLine + 101 \<Longrightarrow>
   \<exists>n. n \<le> startLine + 102 - i \<and> (i < length document \<longrightarrow> 1 \<le> n) \<and>
     functionText (forwardScan document startLine i st) =
       functionText st @ lines_text (take n (drop i document))"
proof (induction "startLine + 101 - i" arbitrary: i st)
  case 0
  then have i: "i = startLine + 101" by arith
  show ?case
  proof (cases "i < length document")
    case True
    have cap: "int i - int startLine > 100" using i by simp
    have "functionText (forwardScan document startLine i st) =
       functionText st @ lines_text (take 1 (drop i document))"
      using True cap by (subst forwardScan.simps) (auto simp: Let_def take_Suc_drop)
    then show ?thesis using i by (intro exI [of _ 1]) simp
  next
    case False
    then have "functionText (forwardScan document startLine i st) =
       functionText st @ lines_text (take 0 (drop i document))"
      by (subst forwardScan.simps) simp
    then show ?thesis using False by (intro exI [of _ 0]) simp
  qed
next
  case (Suc d)
  then have lt: "i < startLine + 101" by arith
  show ?case
  proof (cases "i < length document")
    case False
    then have "functionText (forwardScan document startLine i st) =
       functionText st @ lines_text (take 0 (drop i document))"
      by (subst forwardScan.simps) simp
    then show ?thesis using False by (intro exI [of _ 0]) simp
  next
    case True
    let ?st1 = "st\<lparr>functionText := functionText st @ document ! i @ [nl],
                 braceCount := countBraces (document ! i) (braceCount st)\<rparr>"
    have nocap: "\<not> (int i - int startLine > 100)" using lt by arith
    have d: "d = startLine + 101 - Suc i" using Suc.hyps(2) by arith
    obtain n where n: "n \<le> startLine + 102 - Suc i"
      "functionText (forwardScan document startLine (Suc i) ?st1) =
         functionText ?st1 @ lines_text (take n (drop (Suc i) document))"
      using Suc.hyps(1) [OF d, of ?st1] lt Suc.prems(1) by auto
    show ?thesis
    proof (cases "countBraces (document ! i) (braceCount st) = 0 \<and> CHR ''{'' \<in> set (document ! i)")
      case True
      then have "functionText (forwardScan document startLine i st) =
         functionText st @ lines_text (take 1 (drop i document))"
        using \<open>i < length document\<close>
        by (subst forwardScan.simps) (auto simp: Let_def take_Suc_drop)
      then show ?thesis using lt by (intro exI [of _ 1]) simp
    next
      case False
      then have "forwardScan document startLine i st = forwardScan document startLine (Suc i) ?st1"
        using \<open>i < length document\<close> nocap by (subst forwardScan.simps) (auto simp: Let_def)
      then have "functionText (forwardScan document startLine i st) =
         functionText st @ lines_text (take (Suc n) (drop i document))"
        using n(2) \<open>i < length document\<close> by (simp add: take_Suc_drop)
      then show ?thesis using n(1) lt by (intro exI [of _ "Suc n"]) simp
    qed
  qed
qed

section \<open>The matcher and the words of an expression\<close>

lemma star_rests_set:
  "set (star_rests k s) = {s'. \<exists>u. s = u @ s' \<and> (\<forall>x\<in>set u. in_class k x)}"
proof (induction s)
  case Nil
  then show ?case by auto
next
  case (Cons x xs)
  show ?case
  proof (cases "in_class k x")
    case True
    show ?thesis
    proof (rule set_eqI)
      fix s'
      have "(\<exists>u. x # xs = u @ s' \<and> (\<forall>y\<in>set u. in_class k y)) \<longleftrightarrow>
            s' = x # xs \<or> (\<exists>u. xs = u @ s' \<and> (\<forall>y\<in>set u. in_class k y))"
      proof
        assume "\<exists>u. x # xs = u @ s' \<and> (\<forall>y\<in>set u. in_class k y)"
        then obtain u where u: "x # xs = u @ s'" "\<forall>y\<in>set u. in_class k y" by blast
        show "s' = x # xs \<or> (\<exists>u. xs = u @ s' \<and> (\<forall>y\<in>set u. in_class k y))"
        proof (cases u)
          case Nil
          with u show ?thesis by simp
        next
          case (Cons a u')
          with u have "xs = u' @ s'" "\<forall>y\<in>set u'. in_class k y" by auto
          then show ?thesis by blast
        qed
      next
        assume "s' = x # xs \<or> (\<exists>u. xs = u @ s' \<and> (\<forall>y\<in>set u. in_class k y))"
        then show "\<exists>u. x # xs = u @ s' \<and> (\<forall>y\<in>set u. in_class k y)"
        proof
          assume "s' = x # xs"
          then have "x # xs = [] @ s' \<and> (\<forall>y\<in>set []. in_class k y)" by simp
          then show ?thesis by blast
        next
          assume "\<exists>u. xs = u @ s' \<and> (\<forall>y\<in>set u. in_class k y)"
          then obtain u where "xs = u @ s'" "\<forall>y\<in>set u. in_class k y" by blast
          then have "x # xs = (x # u) @ s' \<and> (\<forall>y\<in>set (x # u). in_class k y)"
            using True by simp
          then show ?thesis by blast
        qed
      qed
      then show "s' \<in> set (star_rests k (x # xs)) \<longleftrightarrow>
                 s' \<in> {s'. \<exists>u. x # xs = u @ s' \<and> (\<forall>x\<in>set u. in_class k x)}"
        using True Cons.IH by auto
    qed
  next
    case False
    have "\<And>s'. (\<exists>u. x # xs = u @ s' \<and> (\<forall>y\<in>set u. in_class k y)) \<longleftrightarrow> s' = x # xs"
    proof
      fix s'
      assume "\<exists>u. x # xs = u @ s' \<and> (\<forall>y\<in>set u. in_class k y)"
      then obtain u where u: "x # xs = u @ s'" "\<forall>y\<in>set u. in_class k y" by blast
      show "s' = x # xs"
      proof (cases u)
        case Nil
        with u show ?thesis by simp
      next
        case (Cons a u')
        with u False show ?thesis by auto
      qed
    next
      fix s'
      assume "s' = x # xs"
      then have "x # xs = [] @ s' \<and> (\<forall>y\<in>set []. in_class k y)" by simp
      then show "\<exists>u. x # xs = u @ s' \<and> (\<forall>y\<in>set u. in_class k y)" by blast
    qed
    then show ?thesis using False by auto
  qed
qed

lemma ms_rests: "snd ` set (ms r c s) = {s'. \<exists>u\<in>lang r. s = u @ s'}"
proof (induction r arbitrary: c s)
  case Eps
  show ?case by auto
next
  case (One k)
  show ?case by (cases s) auto
next
  case (Star k)
  show ?case by (auto simp: star_rests_set image_image)
next
  case (Plus k)
  show ?case
  proof (cases s)
    case Nil
    then show ?thesis by auto
  next
    case (Cons x xs)
    show ?thesis
    proof (rule set_eqI)
      fix s'
      have "(\<exists>u\<in>lang (Plus k). x # xs = u @ s') \<longleftrightarrow>
            in_class k x \<and> (\<exists>v. xs = v @ s' \<and> (\<forall>y\<in>set v. in_class k y))"
      proof
        assume "\<exists>u\<in>lang (Plus k). x # xs = u @ s'"
        then obtain u where u: "u \<noteq> []" "\<forall>y\<in>set u. in_class k y" "x # xs = u @ s'" by auto
        then obtain a v where "u = a # v" by (cases u) auto
        with u show "in_class k x \<and> (\<exists>v. xs = v @ s' \<and> (\<forall>y\<in>set v. in_class k y))" by auto
      next
        assume "in_class k x \<and> (\<exists>v. xs = v @ s' \<and> (\<forall>y\<in>set v. in_class k y))"
        then obtain v where "in_class k x" "xs = v @ s'" "\<forall>y\<in>set v. in_class k y" by blast
        then have "x # v \<in> lang (Plus k)" "x # xs = (x # v) @ s'" by auto
        then show "\<exists>u\<in>lang (Plus k). x # xs = u @ s'" by blast
      qed
      then show "s' \<in> snd ` set (ms (Plus k) c s) \<longleftrightarrow> s' \<in> {s'. \<exists>u\<in>lang (Plus k). s = u @ s'}"
        using Cons by (auto simp: star_rests_set image_image)
    qed
  qed
next
  case (Seq a b)
  show ?case
  proof (rule set_eqI)
    fix s'
    have "s' \<in> snd ` set (ms (Seq a b) c s) \<longleftrightarrow>
          (\<exists>p\<in>set (ms a c s). s' \<in> snd ` set (ms b (fst p) (snd p)))"
      by auto
    also have "\<dots> \<longleftrightarrow> (\<exists>p\<in>set (ms a c s). \<exists>v\<in>lang b. snd p = v @ s')"
      using Seq.IH(2) by auto
    also have "\<dots> \<longleftrightarrow> (\<exists>t\<in>snd ` set (ms a c s). \<exists>v\<in>lang b. t = v @ s')"
      by auto
    also have "\<dots> \<longleftrightarrow> (\<exists>u\<in>lang a. \<exists>v\<in>lang b. s = u @ v @ s')"
      unfolding Seq.IH(1) by auto
    also have "\<dots> \<longleftrightarrow> (\<exists>w\<in>lang (Seq a b). s = w @ s')"
    proof
      assume "\<exists>u\<in>lang a. \<exists>v\<in>lang b. s = u @ v @ s'"
      then obtain u v where "u \<in> lang a" "v \<in> lang b" "s = u @ v @ s'" by blast
      then have "u @ v \<in> lang (Seq a b)" "s = (u @ v) @ s'" by auto
      then show "\<exists>w\<in>lang (Seq a b). s = w @ s'" by blast
    next
      assume "\<exists>w\<in>lang (Seq a b). s = w @ s'"
      then obtain w where "w \<in> lang (Seq a b)" "s = w @ s'" by blast
      then obtain u v where "u \<in> lang a" "v \<in> lang b" "s = u @ v @ s'" by auto
      then show "\<exists>u\<in>lang a. \<exists>v\<in>lang b. s = u @ v @ s'" by blast
    qed
    finally show "s' \<in> snd ` set (ms (Seq a b) c s) \<longleftrightarrow> s' \<in> {s'. \<exists>u\<in>lang (Seq a b). s = u @ s'}"
      by simp
  qed
next
  case (Alt a b)
  show ?case using Alt.IH [of c s] by (auto simp: image_Un)
next
  case (Opt a)
  show ?case using Opt.IH [of c s] by auto
next
  case (Grp n a)
  have "snd ` set (ms (Grp n a) c s) = snd ` set (ms a c s)"
    by (auto simp: image_image)
  then show ?case using Grp.IH [of c s] by simp
qed

lemma ms_sound: "(c', s') \<in> set (ms r c s) \<Longrightarrow> \<exists>u\<in>lang r. s = u @ s'"
proof -
  assume "(c', s') \<in> set (ms r c s)"
  then have "s' \<in> snd ` set (ms r c s)" by force
  then show ?thesis unfolding ms_rests by simp
qed

lemma ms_complete: "u \<in> lang r \<Longrightarrow> \<exists>c'. (c', s') \<in> set (ms r c (u @ s'))"
proof -
  assume "u \<in> lang r"
  then have "s' \<in> snd ` set (ms r c (u @ s'))" unfolding ms_rests by blast
  then show ?thesis by auto
qed

lemma ms_nonempty_iff: "ms r c s \<noteq> [] \<longleftrightarrow> (\<exists>u s'. s = u @ s' \<and> u \<in> lang r)"
proof -
  have "ms r c s \<noteq> [] \<longleftrightarrow> snd ` set (ms r c s) \<noteq> {}" by simp
  also have "\<dots> \<longleftrightarrow> (\<exists>u s'. s = u @ s' \<and> u \<in> lang r)" unfolding ms_rests by auto
  finally show ?thesis .
qed

lemma caps_keep: "(c', s') \<in> set (ms r c s) \<Longrightarrow> n \<notin> groups r \<Longrightarrow> c' n = c n"
proof (induction r arbitrary: c s c' s')
  case (One k)
  then show ?case by (cases s) (auto split: if_splits)
next
  case (Plus k)
  then show ?case by (cases s) (auto split: if_splits)
next
  case (Seq a b)
  from Seq.prems obtain p where p: "p \<in> set (ms a c s)" "(c', s') \<in> set (ms b (fst p) (snd p))"
    by auto
  from Seq.IH(1) [of "fst p" "snd p" c s] p(1) Seq.prems(2) have "fst p n = c n" by simp
  moreover from Seq.IH(2) [OF p(2)] Seq.prems(2) have "c' n = fst p n" by simp
  ultimately show ?case by simp
next
  case (Grp m a)
  from Grp.prems obtain p where p: "p \<in> set (ms a c s)" "c' = (fst p)(m \<mapsto> take (length s - length (snd p)) s)"
    by auto
  from Grp.IH [of "fst p" "snd p" c s] p(1) Grp.prems(2) have "fst p n = c n" by simp
  with p(2) Grp.prems(2) show ?case by simp
qed auto

lemma grp_capture:
  "(c', s') \<in> set (ms (Grp n r) c s) \<Longrightarrow> \<exists>u\<in>lang r. s = u @ s' \<and> c' n = Some u"
proof -
  assume "(c', s') \<in> set (ms (Grp n r) c s)"
  then obtain p where p: "p \<in> set (ms r c s)" "c' = (fst p)(n \<mapsto> take (length s - length (snd p)) s)" "s' = snd p"
    by auto
  then have "(fst p, s') \<in> set (ms r c s)" by simp
  from ms_sound [OF this] obtain u where u: "u \<in> lang r" "s = u @ s'" by blast
  with p have "c' n = Some u" by simp
  with u show ?thesis by blast
qed

lemma search_None_iff: "search r s = None \<longleftrightarrow> (\<forall>pre t. s = pre @ t \<longrightarrow> ms r Map.empty t = [])"
proof (induction s)
  case Nil
  show ?case by (auto split: list.splits)
next
  case (Cons x xs)
  have "(\<forall>pre t. x # xs = pre @ t \<longrightarrow> ms r Map.empty t = []) \<longleftrightarrow>
        ms r Map.empty (x # xs) = [] \<and> (\<forall>pre t. xs = pre @ t \<longrightarrow> ms r Map.empty t = [])"
    (is "?L \<longleftrightarrow> ?A \<and> ?R")
  proof
    assume l: ?L
    have "x # xs = [] @ (x # xs)" by simp
    with l have a: ?A by blast
    have ?R
    proof (intro allI impI)
      fix pre t assume "xs = pre @ t"
      then have "x # xs = (x # pre) @ t" by simp
      with l show "ms r Map.empty t = []" by blast
    qed
    with a show "?A \<and> ?R" by simp
  next
    assume ar: "?A \<and> ?R"
    show ?L
    proof (intro allI impI)
      fix pre t assume e: "x # xs = pre @ t"
      show "ms r Map.empty t = []"
      proof (cases pre)
        case Nil
        with e ar show ?thesis by simp
      next
        case (Cons a pre')
        with e have "xs = pre' @ t" by simp
        with ar show ?thesis by blast
      qed
    qed
  qed
  moreover have "search r (x # xs) = None \<longleftrightarrow> ms r Map.empty (x # xs) = [] \<and> search r xs = None"
    by (simp split: list.splits)
  ultimately show ?case using Cons.IH by simp
qed

lemma search_Some:
  "search r s = Some m \<Longrightarrow> \<exists>pre t s'. s = pre @ t \<and> (m, s') \<in> set (ms r Map.empty t)"
proof (induction s)
  case Nil
  show ?case
  proof (cases "ms r Map.empty []")
    case Nil
    with Nil.prems show ?thesis by simp
  next
    case (Cons p ps)
    with Nil.prems have "m = fst p" by simp
    with Cons have "[] = [] @ [] \<and> (m, snd p) \<in> set (ms r Map.empty [])" by simp
    then show ?thesis
      by (intro exI [of _ "[]"] exI [of _ "snd p"])
  qed
next
  case outer: (Cons x xs)
  show ?case
  proof (cases "ms r Map.empty (x # xs)")
    case Nil
    with outer.prems have "search r xs = Some m" by simp
    from outer.IH [OF this] obtain pre t s' where "xs = pre @ t" "(m, s') \<in> set (ms r Map.empty t)"
      by blast
    then have "x # xs = (x # pre) @ t \<and> (m, s') \<in> set (ms r Map.empty t)" by simp
    then show ?thesis
      by (intro exI [of _ "x # pre"] exI [of _ t] exI [of _ s'])
  next
    case (Cons p ps)
    with outer.prems have "m = fst p" by simp
    with Cons have "x # xs = [] @ (x # xs) \<and> (m, snd p) \<in> set (ms r Map.empty (x # xs))" by simp
    then show ?thesis
      by (intro exI [of _ "[]"] exI [of _ "x # xs"] exI [of _ "snd p"])
  qed
qed

lemma search_None_contains: "search r s = None \<longleftrightarrow> \<not> contains_match r s"
proof -
  have "(\<forall>pre t. s = pre @ t \<longrightarrow> ms r Map.empty t = []) \<longleftrightarrow>
        \<not> (\<exists>pre u post. s = pre @ u @ post \<and> u \<in> lang r)"
    using ms_nonempty_iff [of r Map.empty] by blast
  then show ?thesis by (simp add: search_None_iff contains_match_def)
qed

section \<open>The Extractor never fails\<close>

lemma lang_lit [simp]: "lang (lit s) = {s}"
  unfolding lit_def by (induction s) auto

lemma groups_lit [simp]: "groups (lit s) = {}"
  unfolding lit_def by (induction s) auto

lemma split_js_nonempty: "split_js d s \<noteq> []"
  by (cases s) (auto split: list.splits)

lemma paramName_total: "\<exists>y. paramName p = Inr y"
proof -
  obtain a as where a: "split_js (CHR '':'') p = a # as"
    using split_js_nonempty [of "CHR '':''" p] by (cases "split_js (CHR '':'') p") auto
  obtain b bs where b: "split_js (CHR ''='') a = b # bs"
    using split_js_nonempty [of "CHR ''=''" a] by (cases "split_js (CHR ''='') a") auto
  show ?thesis by (simp add: paramName_def first_piece_def a b)
qed

lemma map_err_paramName: "\<exists>ys. map_err paramName xs = Inr ys"
proof (induction xs)
  case Nil
  show ?case by simp
next
  case (Cons x xs)
  obtain y where "paramName x = Inr y" using paramName_total by blast
  moreover obtain ys where "map_err paramName xs = Inr ys" using Cons.IH by blast
  ultimately show ?case by simp
qed

lemma ms_SeqD:
  "(c', s') \<in> set (ms (Seq a b) c s) \<Longrightarrow>
   \<exists>c1 s1. (c1, s1) \<in> set (ms a c s) \<and> (c', s') \<in> set (ms b c1 s1)"
proof -
  assume "(c', s') \<in> set (ms (Seq a b) c s)"
  then obtain p where "p \<in> set (ms a c s)" "(c', s') \<in> set (ms b (fst p) (snd p))" by auto
  then have "(fst p, snd p) \<in> set (ms a c s) \<and> (c', s') \<in> set (ms b (fst p) (snd p))" by simp
  then show ?thesis by blast
qed

lemma seqs_Nil: "seqs [] = Eps"
  by (simp add: seqs_def)

lemma seqs_Cons: "seqs (r # rs) = Seq r (seqs rs)"
  by (simp add: seqs_def)

lemma ms_EpsD: "(c', s') \<in> set (ms Eps c s) \<Longrightarrow> c' = c \<and> s' = s"
  by simp

lemma params_group:
  assumes "search params_rx text = Some m"
  shows "\<exists>u. m 1 = Some u"
proof -
  let ?g = "Grp 1 (Star (NotCh (CHR '')'')))"
  from search_Some [OF assms] obtain pre t s' where
    "(m, s') \<in> set (ms params_rx Map.empty t)" by blast
  then have m: "(m, s') \<in> set (ms (Seq (lit ''('') (Seq ?g (Seq (lit '')'') Eps))) Map.empty t)"
    by (simp only: params_rx_def seqs_Cons seqs_Nil)
  from ms_SeqD [OF m] obtain c1 s1 where
    m1: "(m, s') \<in> set (ms (Seq ?g (Seq (lit '')'') Eps)) c1 s1)" by blast
  from ms_SeqD [OF m1] obtain c2 s2 where
    q: "(c2, s2) \<in> set (ms ?g c1 s1)" and
    r: "(m, s') \<in> set (ms (Seq (lit '')'') Eps) c2 s2)" by blast
  from grp_capture [OF q] obtain u where "c2 1 = Some u" by blast
  moreover from caps_keep [OF r, of 1] have "m 1 = c2 1" by simp
  ultimately show ?thesis by simp
qed

lemma return_group:
  assumes "search return_rx text = Some m"
  shows "\<exists>u. m 1 = Some u \<and> u \<noteq> []"
proof -
  let ?o = "Opt (Seq (lit ''<'') (Seq (Plus (NotCh (CHR ''>''))) (Seq (lit ''>'') Eps)))"
  let ?g = "Grp 1 (Seq (Plus Word) (Seq ?o Eps))"
  from search_Some [OF assms] obtain pre t s' where
    "(m, s') \<in> set (ms return_rx Map.empty t)" by blast
  then have m: "(m, s') \<in> set (ms (Seq (lit '')'') (Seq (lit '':'') (Seq (Star Space) (Seq ?g Eps))))
                    Map.empty t)"
    by (simp only: return_rx_def seqs_Cons seqs_Nil)
  from ms_SeqD [OF m] obtain c1 s1 where
    m1: "(m, s') \<in> set (ms (Seq (lit '':'') (Seq (Star Space) (Seq ?g Eps))) c1 s1)" by blast
  from ms_SeqD [OF m1] obtain c2 s2 where
    m2: "(m, s') \<in> set (ms (Seq (Star Space) (Seq ?g Eps)) c2 s2)" by blast
  from ms_SeqD [OF m2] obtain c3 s3 where
    m3: "(m, s') \<in> set (ms (Seq ?g Eps) c3 s3)" by blast
  from ms_SeqD [OF m3] obtain c4 s4 where
    p4: "(c4, s4) \<in> set (ms ?g c3 s3)" and r: "(m, s') \<in> set (ms Eps c4 s4)" by blast
  from ms_EpsD [OF r] have e: "m = c4" by simp
  from grp_capture [OF p4] obtain u where
    u: "u \<in> lang (Seq (Plus Word) (Seq ?o Eps))" "c4 1 = Some u" by blast
  from u(1) have "u \<noteq> []" by auto
  with u e show ?thesis by simp
qed

lemma name_keyword_group:
  assumes "(m, s') \<in> set (ms name_keyword_rx c t)"
  shows "\<exists>u. m 1 = Some u \<and> u \<in> lang (Plus Word)"
proof -
  let ?k = "Alt (lit ''function'') (Alt (lit ''const'') (Alt (lit ''let'') (lit ''var'')))"
  let ?g = "Grp 1 (Plus Word)"
  from assms have m: "(m, s') \<in> set (ms (Seq ?k (Seq (Plus Space) (Seq ?g Eps))) c t)"
    by (simp only: name_keyword_rx_def seqs_Cons seqs_Nil)
  from ms_SeqD [OF m] obtain c1 s1 where
    m1: "(m, s') \<in> set (ms (Seq (Plus Space) (Seq ?g Eps)) c1 s1)" by blast
  from ms_SeqD [OF m1] obtain c2 s2 where
    m2: "(m, s') \<in> set (ms (Seq ?g Eps) c2 s2)" by blast
  from ms_SeqD [OF m2] obtain c3 s3 where
    p3: "(c3, s3) \<in> set (ms ?g c2 s2)" and r: "(m, s') \<in> set (ms Eps c3 s3)" by blast
  from ms_EpsD [OF r] have e: "m = c3" by simp
  from grp_capture [OF p3] e show ?thesis by blast
qed

lemma groups_name_tail: "groups name_tail_rx = {}"
  by (simp add: name_tail_rx_def seqs_def)

lemma name_assign_group:
  assumes "(m, s') \<in> set (ms name_assign_rx c t)"
  shows "\<exists>u v. m 2 = Some u \<and> m 1 = c 1 \<and> u \<in> lang (Plus Word) \<and> v \<in> lang name_tail_rx \<and> t = u @ v @ s'"
proof -
  from assms have "(m, s') \<in> set (ms (Seq (Grp 2 (Plus Word)) name_tail_rx) c t)"
    by (simp only: name_assign_rx_def)
  from ms_SeqD [OF this] obtain c1 s1 where
    p: "(c1, s1) \<in> set (ms (Grp 2 (Plus Word)) c t)" and
    r: "(m, s') \<in> set (ms name_tail_rx c1 s1)" by blast
  from grp_capture [OF p] obtain u where u: "u \<in> lang (Plus Word)" "t = u @ s1" "c1 2 = Some u"
    by blast
  from caps_keep [OF r, of 2] have m2: "m 2 = c1 2" by (simp add: groups_name_tail)
  from caps_keep [OF r, of 1] have "m 1 = c1 1" by (simp add: groups_name_tail)
  moreover from caps_keep [OF p, of 1] have "c1 1 = c 1" by simp
  ultimately have m1: "m 1 = c 1" by simp
  from ms_sound [OF r] obtain v where v: "v \<in> lang name_tail_rx" "s1 = v @ s'" by blast
  from u v m1 m2 show ?thesis by auto
qed

lemma name_match:
  assumes "search name_rx text = Some m"
  shows "\<exists>u. js_or (m 1) (m 2) = Some u \<and> u \<in> lang (Plus Word)"
proof -
  from search_Some [OF assms] obtain pre t s' where
    m: "(m, s') \<in> set (ms name_rx Map.empty t)" by blast
  then have "(m, s') \<in> set (ms (Alt name_keyword_rx name_assign_rx) Map.empty t)"
    by (simp only: name_rx_def)
  then consider "(m, s') \<in> set (ms name_keyword_rx Map.empty t)"
    | "(m, s') \<in> set (ms name_assign_rx Map.empty t)"
    by auto
  then show ?thesis
  proof cases
    case 1
    from name_keyword_group [OF 1] obtain u where "m 1 = Some u" "u \<in> lang (Plus Word)" by blast
    then show ?thesis by (auto simp: js_or_def)
  next
    case 2
    from name_assign_group [OF 2] obtain u where "m 2 = Some u" "m 1 = None" "u \<in> lang (Plus Word)"
      by auto
    then show ?thesis by (auto simp: js_or_def)
  qed
qed

lemma parse_shape:
  "\<exists>ps. parseFunctionFromText text =
      Inr \<lparr>name = (case search name_rx text of
                      Some m \<Rightarrow> js_or (m 1) (m 2) | None \<Rightarrow> Some ''unknown''),
           params = ps,
           returnType = (case search return_rx text of Some m \<Rightarrow> m 1 | None \<Rightarrow> Some ''void''),
           body = text\<rparr>"
proof -
  define nm where
    "nm = (case search name_rx text of Some m \<Rightarrow> js_or (m 1) (m 2) | None \<Rightarrow> Some ''unknown'')"
  define rt where
    "rt = (case search return_rx text of Some m \<Rightarrow> m 1 | None \<Rightarrow> Some ''void'')"
  obtain str where
    str: "(case search params_rx text of Some m \<Rightarrow> m 1 | None \<Rightarrow> Some '''') = Some str"
  proof (cases "search params_rx text")
    case None
    then show ?thesis using that by simp
  next
    case (Some m)
    from params_group [OF Some] show ?thesis using that Some by auto
  qed
  obtain ps where ps: "map_err paramName
       (filter (\<lambda>p. length p > 0) (map trim (split_js (CHR '','') str))) = Inr ps"
    using map_err_paramName by blast
  have "parseFunctionFromText text =
      Inr \<lparr>name = nm, params = ps, returnType = rt, body = text\<rparr>"
    unfolding parseFunctionFromText_def Let_def str nm_def [symmetric] rt_def [symmetric]
    by (simp only: ps option.case sum.case)
  then show ?thesis unfolding nm_def rt_def by (intro exI [of _ ps])
qed

lemma parse_total:
  "\<exists>n ps rt. parseFunctionFromText text =
      Inr \<lparr>name = Some n, params = ps, returnType = Some rt, body = text\<rparr> \<and> n \<noteq> [] \<and> rt \<noteq> []
    \<and> (search name_rx text = None \<longrightarrow> n = ''unknown'')
    \<and> (search return_rx text = None \<longrightarrow> rt = ''void'')"
proof -
  obtain n where n: "(case search name_rx text of Some m \<Rightarrow> js_or (m 1) (m 2) | None \<Rightarrow> Some ''unknown'') = Some n"
     "n \<noteq> []" "search name_rx text = None \<longrightarrow> n = ''unknown''"
  proof (cases "search name_rx text")
    case None
    then show ?thesis using that [of "''unknown''"] by simp
  next
    case (Some m)
    from name_match [OF Some] obtain u where "js_or (m 1) (m 2) = Some u" "u \<in> lang (Plus Word)" by blast
    then show ?thesis using that [of u] Some by simp
  qed
  obtain rt where rt: "(case search return_rx text of Some m \<Rightarrow> m 1 | None \<Rightarrow> Some ''void'') = Some rt"
     "rt \<noteq> []" "search return_rx text = None \<longrightarrow> rt = ''void''"
  proof (cases "search return_rx text")
    case None
    then show ?thesis using that [of "''void''"] by simp
  next
    case (Some m)
    from return_group [OF Some] obtain u where "m 1 = Some u" "u \<noteq> []" by blast
    then show ?thesis using that [of u] Some by simp
  qed
  from parse_shape [of "text"] obtain ps where
    "parseFunctionFromText text =
      Inr \<lparr>name = (case search name_rx text of
                      Some m \<Rightarrow> js_or (m 1) (m 2) | None \<Rightarrow> Some ''unknown''),
           params = ps,
           returnType = (case search return_rx text of Some m \<Rightarrow> m 1 | None \<Rightarrow> Some ''void''),
           body = text\<rparr>"
    by blast
  then have "parseFunctionFromText text =
      Inr \<lparr>name = Some n, params = ps, returnType = Some rt, body = text\<rparr>"
    by (simp only: n(1) rt(1))
  with n(2,3) rt(2,3) show ?thesis
    by (intro exI [of _ n] exI [of _ ps] exI [of _ rt] conjI)
qed

section \<open>The backward scan\<close>

lemma findStart_none:
  "cursorLine < length document \<Longrightarrow> i \<le> int cursorLine \<Longrightarrow>
   (\<And>k. max 0 (int cursorLine - 20) \<le> int k \<Longrightarrow> int k \<le> i \<Longrightarrow> \<not> matchesPattern (document ! k)) \<Longrightarrow>
   findStart document cursorLine i = Inr None"
proof (induction document cursorLine i rule: findStart.induct)
  case (1 document cursorLine i)
  show ?case
  proof (cases "i \<ge> max 0 (int cursorLine - 20)")
    case False
    then show ?thesis by (subst findStart.simps) auto
  next
    case True
    then have i0: "0 \<le> i" by simp
    have la: "lineAt document i = Inr (document ! nat i)"
      using i0 "1.prems"(1,2) by (simp add: lineAt_def)
    have nm: "\<not> matchesPattern (document ! nat i)"
      using "1.prems"(3) [of "nat i"] True i0 by simp
    have "findStart document cursorLine (i - 1) = Inr None"
    proof (rule "1.IH" [OF True la nm "1.prems"(1)])
      show "i - 1 \<le> int cursorLine" using "1.prems"(2) by simp
    next
      fix k assume "max 0 (int cursorLine - 20) \<le> int k" "int k \<le> i - 1"
      then show "\<not> matchesPattern (document ! k)" using "1.prems"(3) [of k] by simp
    qed
    then show ?thesis using True la nm by (subst findStart.simps) simp
  qed
qed

lemma findStart_some:
  "cursorLine < length document \<Longrightarrow> i \<le> int cursorLine \<Longrightarrow>
   max 0 (int cursorLine - 20) \<le> int j \<Longrightarrow> int j \<le> i \<Longrightarrow> matchesPattern (document ! j) \<Longrightarrow>
   (\<And>k. int j < int k \<Longrightarrow> int k \<le> i \<Longrightarrow> \<not> matchesPattern (document ! k)) \<Longrightarrow>
   findStart document cursorLine i = Inr (Some j)"
proof (induction document cursorLine i rule: findStart.induct)
  case (1 document cursorLine i)
  have True: "i \<ge> max 0 (int cursorLine - 20)" using "1.prems"(3,4) by simp
  then have i0: "0 \<le> i" by simp
  have la: "lineAt document i = Inr (document ! nat i)"
    using i0 "1.prems"(1,2) by (simp add: lineAt_def)
  show ?case
  proof (cases "int j = i")
    case True
    then have "nat i = j" by simp
    then show ?thesis using \<open>i \<ge> max 0 (int cursorLine - 20)\<close> la "1.prems"(5)
      by (subst findStart.simps) simp
  next
    case False
    then have lt: "int j < i" using "1.prems"(4) by simp
    have nm: "\<not> matchesPattern (document ! nat i)"
      using "1.prems"(6) [of "nat i"] lt i0 by simp
    have "findStart document cursorLine (i - 1) = Inr (Some j)"
    proof (rule "1.IH" [OF \<open>i \<ge> max 0 (int cursorLine - 20)\<close> la nm "1.prems"(1) _ "1.prems"(3) _ "1.prems"(5)])
      show "i - 1 \<le> int cursorLine" using "1.prems"(2) by simp
    next
      show "int j \<le> i - 1" using lt by simp
    next
      fix k assume "int j < int k" "int k \<le> i - 1"
      then show "\<not> matchesPattern (document ! k)" using "1.prems"(6) [of k] by simp
    qed
    then show ?thesis using \<open>i \<ge> max 0 (int cursorLine - 20)\<close> la nm by (subst findStart.simps) simp
  qed
qed

lemma nearest_exists:
  fixes P :: "nat \<Rightarrow> bool"
  assumes "P k" "k \<le> c"
  shows "\<exists>j. k \<le> j \<and> j \<le> c \<and> P j \<and> (\<forall>l. j < l \<and> l \<le> c \<longrightarrow> \<not> P l)"
proof -
  define S where "S = {j. j \<le> c \<and> P j}"
  have fin: "finite S" unfolding S_def by simp
  have ne: "S \<noteq> {}" using assms unfolding S_def by blast
  let ?j = "Max S"
  have jS: "?j \<in> S" using fin ne by (rule Max_in)
  have kj: "k \<le> ?j" using assms fin unfolding S_def by (intro Max_ge) auto
  have "\<forall>l. ?j < l \<and> l \<le> c \<longrightarrow> \<not> P l"
  proof (intro allI impI notI)
    fix l assume l: "?j < l \<and> l \<le> c" and "P l"
    then have "l \<in> S" unfolding S_def by simp
    then have "l \<le> ?j" using fin by (rule Max_ge [rotated])
    with l show False by simp
  qed
  with jS kj show ?thesis unfolding S_def by blast
qed

lemma findStart_found:
  assumes c: "cursorLine < length document"
    and k: "k \<le> cursorLine" "cursorLine \<le> k + 20" "matchesPattern (document ! k)"
  shows "\<exists>j. findStart document cursorLine (int cursorLine) = Inr (Some j) \<and>
     j \<le> cursorLine \<and> cursorLine \<le> j + 20 \<and> matchesPattern (document ! j) \<and>
     (\<forall>l. j < l \<and> l \<le> cursorLine \<longrightarrow> \<not> matchesPattern (document ! l))"
proof -
  from nearest_exists [of "\<lambda>l. matchesPattern (document ! l)" k cursorLine] k
  obtain j where j: "k \<le> j" "j \<le> cursorLine" "matchesPattern (document ! j)"
    "\<forall>l. j < l \<and> l \<le> cursorLine \<longrightarrow> \<not> matchesPattern (document ! l)" by blast
  have "findStart document cursorLine (int cursorLine) = Inr (Some j)"
  proof (rule findStart_some [OF c _ _ _ j(3)])
    show "int cursorLine \<le> int cursorLine" by simp
    show "max 0 (int cursorLine - 20) \<le> int j" using j(1) k(2) by simp
    show "int j \<le> int cursorLine" using j(2) by simp
    fix l assume "int j < int l" "int l \<le> int cursorLine"
    then show "\<not> matchesPattern (document ! l)" using j(4) by simp
  qed
  with j k show ?thesis by auto
qed

lemma findStart_total:
  assumes c: "cursorLine < length document"
  shows "\<exists>r. findStart document cursorLine (int cursorLine) = Inr r"
proof (cases "\<exists>k. k \<le> cursorLine \<and> cursorLine \<le> k + 20 \<and> matchesPattern (document ! k)")
  case True
  then obtain k where "k \<le> cursorLine" "cursorLine \<le> k + 20" "matchesPattern (document ! k)" by blast
  from findStart_found [OF c this] show ?thesis by blast
next
  case False
  have "findStart document cursorLine (int cursorLine) = Inr None"
  proof (rule findStart_none [OF c])
    show "int cursorLine \<le> int cursorLine" by simp
    fix k assume "max 0 (int cursorLine - 20) \<le> int k" "int k \<le> int cursorLine"
    then have "k \<le> cursorLine \<and> cursorLine \<le> k + 20" by auto
    with False show "\<not> matchesPattern (document ! k)" by blast
  qed
  then show ?thesis by blast
qed

section \<open>Bridges between the matcher and the declarative notions\<close>

lemma no_match_by_search: "search r s = None \<Longrightarrow> \<not> contains_match r s"
  by (simp add: search_None_contains)

lemma match_by_search: "search r s \<noteq> None \<Longrightarrow> contains_match r s"
  by (simp add: search_None_contains)

lemma lang_name_rx: "lang name_rx = lang name_keyword_rx \<union> lang name_assign_rx"
  by (simp add: name_rx_def)

lemma contains_match_name_rx:
  "contains_match name_rx s \<longleftrightarrow> contains_match name_keyword_rx s \<or> contains_match name_assign_rx s"
  unfolding contains_match_def lang_name_rx by blast

section \<open>The scan from a declaration line, and the Formatter loop\<close>

lemma stopsAt_runFrom: "stopsAt document startLine j \<longleftrightarrow>
   runFrom document startLine 0 j = 0 \<and> CHR ''{'' \<in> set (document ! j)"
  by (simp add: stopsAt_def)

lemma scanFrom_stop:
  assumes "startLine \<le> j" "j < length document" "j \<le> startLine + 101"
    "stopsAt document startLine j"
    "\<And>k. startLine \<le> k \<Longrightarrow> k < j \<Longrightarrow> \<not> stopsAt document startLine k"
  shows "scanFrom document startLine =
     \<lparr>braceCount = 0, endLine = j,
      functionText = lines_text (take (j + 1 - startLine) (drop startLine document))\<rparr>"
proof -
  let ?st = "\<lparr>braceCount = 0, endLine = startLine, functionText = []\<rparr>"
  have "forwardScan document startLine startLine ?st =
     ?st\<lparr>functionText := functionText ?st @ lines_text (take (j + 1 - startLine) (drop startLine document)),
        braceCount := 0, endLine := j\<rparr>"
  proof (rule forwardScan_stop [OF le_refl assms(1) assms(2) assms(3)])
    show "runFrom document startLine (braceCount ?st) j = 0"
      using assms(4) by (simp add: stopsAt_def)
    show "CHR ''{'' \<in> set (document ! j)" using assms(4) by (simp add: stopsAt_def)
    fix k assume "startLine \<le> k" "k < j"
    from assms(5) [OF this]
    show "\<not> (runFrom document startLine (braceCount ?st) k = 0 \<and> CHR ''{'' \<in> set (document ! k))"
      by (simp add: stopsAt_def)
  qed
  then show ?thesis by (simp add: scanFrom_def)
qed

lemma scanFrom_nostop:
  assumes "\<And>k. startLine \<le> k \<Longrightarrow> k < length document \<Longrightarrow> k \<le> startLine + 101 \<Longrightarrow>
     \<not> stopsAt document startLine k"
  shows "functionText (scanFrom document startLine) = lines_text (take 102 (drop startLine document))
     \<and> endLine (scanFrom document startLine) = startLine"
proof -
  let ?st = "\<lparr>braceCount = 0, endLine = startLine, functionText = []\<rparr>"
  have "forwardScan document startLine startLine ?st =
     ?st\<lparr>functionText := functionText ?st @ lines_text (take (startLine + 102 - startLine) (drop startLine document)),
        braceCount := countBraces (concat (take (startLine + 102 - startLine) (drop startLine document))) (braceCount ?st)\<rparr>"
  proof (rule forwardScan_nostop [OF le_refl])
    show "startLine \<le> startLine + 101" by simp
    fix k assume "startLine \<le> k" "k < length document" "k \<le> startLine + 101"
    from assms [OF this]
    show "\<not> (runFrom document startLine (braceCount ?st) k = 0 \<and> CHR ''{'' \<in> set (document ! k))"
      by (simp add: stopsAt_def)
  qed
  then show ?thesis by (simp add: scanFrom_def)
qed

lemma scanFrom_bound:
  "\<exists>n. n \<le> 102 \<and> (startLine < length document \<longrightarrow> 1 \<le> n) \<and>
     functionText (scanFrom document startLine) = lines_text (take n (drop startLine document))"
proof -
  let ?st = "\<lparr>braceCount = 0, endLine = startLine, functionText = []\<rparr>"
  from forwardScan_bound [of startLine startLine document ?st]
  obtain n where "n \<le> startLine + 102 - startLine"
    "startLine < length document \<longrightarrow> 1 \<le> n"
    "functionText (forwardScan document startLine startLine ?st) =
       functionText ?st @ lines_text (take n (drop startLine document))"
    by auto
  then have "n \<le> 102 \<and> (startLine < length document \<longrightarrow> 1 \<le> n) \<and>
     functionText (scanFrom document startLine) = lines_text (take n (drop startLine document))"
    by (simp add: scanFrom_def)
  then show ?thesis by (intro exI [of _ n])
qed

lemma not_decl_body_line: "\<not> matchesPattern ''  x;''"
  by code_simp

lemma foldl_skip_empty:
  "foldl (\<lambda>doc param. if param \<noteq> [] \<and> P param then doc @ f param else doc) d ps
   = foldl (\<lambda>doc param. if param \<noteq> [] \<and> P param then doc @ f param else doc) d
       (filter (\<lambda>p. p \<noteq> []) ps)"
  by (induction ps arbitrary: d) auto

lemma buildDoc_skip_empty:
  "buildDoc indent summary (info\<lparr>params := ps\<rparr>)
   = buildDoc indent summary (info\<lparr>params := filter (\<lambda>p. p \<noteq> []) ps\<rparr>)"
  unfolding buildDoc_def Let_def
  using foldl_skip_empty [of "\<lambda>param. param \<noteq> ''...''"
     "\<lambda>param. indent @ '' * <param name='' @ [dq] @ param @ [dq] @ ''></param>'' @ [nl]"
     _ ps]
  by simp

section \<open>The brace balance, and the leftmost whole identifier\<close>

lemma countBraces_balance: "countBraces s n = n + braceBalance s"
  unfolding countBraces_def braceBalance_def
  by (induction s arbitrary: n) (auto simp: Let_def)

lemma stopsAt_stopLine: "stopsAt document startLine j = stopLine document startLine j"
  by (simp add: stopsAt_def stopLine_def runFrom_def balanceAfter_def countBraces_balance)

lemma space_not_word: "is_space c \<Longrightarrow> \<not> is_word c"
  by (auto simp: is_space_def is_word_def)

lemma name_tail_first: "v \<in> lang name_tail_rx \<Longrightarrow> \<exists>c r. v = c # r \<and> \<not> is_word c"
proof -
  assume "v \<in> lang name_tail_rx"
  then have "v \<in> lang (Seq (Star Space)
      (Seq (Alt (Seq (lit ''='') (Seq (Star Space) (Seq (Opt (Seq (lit ''async'') (Seq (Star Space) Eps))) (Seq (lit ''('') Eps))))
                (Seq (lit '':'') (Seq (Star Space) (Seq (lit ''('') Eps)))) Eps))"
    by (simp only: name_tail_rx_def seqs_Cons seqs_Nil)
  then obtain u w where uw: "v = u @ w" "\<forall>x\<in>set u. is_space x"
    "(\<exists>r. w = CHR ''='' # r) \<or> (\<exists>r. w = CHR '':'' # r)"
    by auto
  show ?thesis
  proof (cases u)
    case Nil
    from uw(3) show ?thesis
    proof
      assume "\<exists>r. w = CHR ''='' # r"
      then obtain r where "w = CHR ''='' # r" by blast
      with uw(1) Nil have "v = CHR ''='' # r \<and> \<not> is_word (CHR ''='')" by (simp add: is_word_def)
      then show ?thesis by blast
    next
      assume "\<exists>r. w = CHR '':'' # r"
      then obtain r where "w = CHR '':'' # r" by blast
      with uw(1) Nil have "v = CHR '':'' # r \<and> \<not> is_word (CHR '':'')" by (simp add: is_word_def)
      then show ?thesis by blast
    qed
  next
    case (Cons c u')
    with uw(2) have "is_space c" by simp
    then have "\<not> is_word c" by (rule space_not_word)
    with uw(1) Cons have "v = c # (u' @ w) \<and> \<not> is_word c" by simp
    then show ?thesis by blast
  qed
qed

lemma whole_word:
  assumes "u \<in> lang (Plus Word)" "v \<in> lang name_tail_rx"
  shows "takeWhile is_word (u @ v @ s) = u"
proof -
  from name_tail_first [OF assms(2)] obtain c r where cr: "v = c # r" "\<not> is_word c" by blast
  from assms(1) have "\<forall>x\<in>set u. is_word x" by simp
  then have "takeWhile is_word (u @ v @ s) = u @ takeWhile is_word (v @ s)"
    by (simp add: takeWhile_append2)
  with cr show ?thesis by simp
qed

lemma lang_name_assign:
  "u \<in> lang (Plus Word) \<Longrightarrow> v \<in> lang name_tail_rx \<Longrightarrow> u @ v \<in> lang name_assign_rx"
  unfolding name_assign_rx_def by auto

lemma search_Some_leftmost:
  "search r s = Some m \<Longrightarrow>
   \<exists>pre t s'. s = pre @ t \<and> (m, s') \<in> set (ms r Map.empty t) \<and>
     (\<forall>p q. s = p @ q \<and> length p < length pre \<longrightarrow> ms r Map.empty q = [])"
proof (induction s)
  case Nil
  show ?case
  proof (cases "ms r Map.empty []")
    case Nil
    with Nil.prems show ?thesis by simp
  next
    case (Cons p ps)
    with Nil.prems have "m = fst p" by simp
    with Cons have "[] = [] @ [] \<and> (m, snd p) \<in> set (ms r Map.empty []) \<and>
       (\<forall>p q. [] = p @ q \<and> length p < length ([]::string) \<longrightarrow> ms r Map.empty q = [])" by simp
    then show ?thesis
      by (intro exI [of _ "[]"] exI [of _ "snd p"])
  qed
next
  case outer: (Cons x xs)
  show ?case
  proof (cases "ms r Map.empty (x # xs)")
    case Nil
    with outer.prems have "search r xs = Some m" by simp
    from outer.IH [OF this] obtain pre t s' where
      ih: "xs = pre @ t" "(m, s') \<in> set (ms r Map.empty t)"
        "\<forall>p q. xs = p @ q \<and> length p < length pre \<longrightarrow> ms r Map.empty q = []"
      by blast
    have "\<forall>p q. x # xs = p @ q \<and> length p < length (x # pre) \<longrightarrow> ms r Map.empty q = []"
    proof (intro allI impI)
      fix p q assume a: "x # xs = p @ q \<and> length p < length (x # pre)"
      show "ms r Map.empty q = []"
      proof (cases p)
        case Nil
        with a have "q = x # xs" by simp
        with \<open>ms r Map.empty (x # xs) = []\<close> show ?thesis by simp
      next
        case (Cons y p')
        with a have "xs = p' @ q \<and> length p' < length pre" by simp
        with ih(3) show ?thesis by blast
      qed
    qed
    with ih(1,2) have "x # xs = (x # pre) @ t \<and> (m, s') \<in> set (ms r Map.empty t) \<and>
       (\<forall>p q. x # xs = p @ q \<and> length p < length (x # pre) \<longrightarrow> ms r Map.empty q = [])"
      by simp
    then show ?thesis
      by (intro exI [of _ "x # pre"] exI [of _ t] exI [of _ s'])
  next
    case (Cons p ps)
    with outer.prems have "m = fst p" by simp
    with Cons have "x # xs = [] @ (x # xs) \<and> (m, snd p) \<in> set (ms r Map.empty (x # xs)) \<and>
       (\<forall>p q. x # xs = p @ q \<and> length p < length ([]::string) \<longrightarrow> ms r Map.empty q = [])"
      by simp
    then show ?thesis
      by (intro exI [of _ "[]"] exI [of _ "x # xs"] exI [of _ "snd p"])
  qed
qed

lemma assign_match_nonempty:
  assumes "u \<in> lang (Plus Word)" "v \<in> lang name_tail_rx"
  shows "ms name_rx Map.empty (u @ v @ s) \<noteq> []"
proof -
  from lang_name_assign [OF assms] have "u @ v \<in> lang name_rx" by (simp add: lang_name_rx)
  then have "\<exists>w s'. u @ v @ s = w @ s' \<and> w \<in> lang name_rx"
    by (intro exI [of _ "u @ v"] exI [of _ s]) simp
  then show ?thesis by (simp only: ms_nonempty_iff)
qed

lemma lang_by_matcher: "list_ex (\<lambda>p. snd p = []) (ms r Map.empty u) \<Longrightarrow> u \<in> lang r"
proof -
  assume "list_ex (\<lambda>p. snd p = []) (ms r Map.empty u)"
  then obtain p where "p \<in> set (ms r Map.empty u)" "snd p = []"
    by (auto simp: list_ex_iff)
  then have "(fst p, []) \<in> set (ms r Map.empty u)" by (metis prod.collapse)
  from ms_sound [OF this] show ?thesis by simp
qed

lemma balance_eq_counts:
  "count_list s (CHR ''{'') = count_list s (CHR ''}'') \<Longrightarrow> braceBalance s = 0"
  by (simp add: braceBalance_def)

section \<open>The claims\<close>

text \<open>
  Claim C1. For a function body whose braces balance, the forward scan should end at the
  line where the cumulative brace count first returns to zero after a brace was opened.
  The code does not: its stop test asks for an opening brace on the very line where the
  count is zero. In the four-line document below the count is 1 after line 0, 1 after
  line 1 and back to 0 after line 2 (the closing brace), yet the scan runs on to the end
  of the document, takes the line after the function into \<open>functionText\<close> and never
  sets \<open>endLine\<close>.
\<close>

theorem scan_runs_past_closing_brace:
  "runFrom [''function f() {'', ''  return 1;'', ''}'', ''let y = 2;''] 0 0 0 = 1
   \<and> runFrom [''function f() {'', ''  return 1;'', ''}'', ''let y = 2;''] 0 0 1 = 1
   \<and> runFrom [''function f() {'', ''  return 1;'', ''}'', ''let y = 2;''] 0 0 2 = 0
   \<and> functionText (scanFrom [''function f() {'', ''  return 1;'', ''}'', ''let y = 2;''] 0)
       = lines_text [''function f() {'', ''  return 1;'', ''}'', ''let y = 2;'']
   \<and> endLine (scanFrom [''function f() {'', ''  return 1;'', ''}'', ''let y = 2;''] 0) = 0"
  by code_simp

text \<open>
  Claim C2. Formatting the summary "Adds two numbers." for the signature \<open>add(a, b)\<close> with
  return type \<open>void\<close> at zero indentation gives the opening delimiter, the summary pair
  around the summary text, one \<open>param\<close> tag for \<open>a\<close> and one for \<open>b\<close>, the closing
  delimiter and no \<open>returns\<close> tag. That block has seven lines, not six.
\<close>

theorem buildDoc_add_seven_lines:
  "buildDoc [] ''Adds two numbers.''
     \<lparr>name = Some ''add'', params = [''a'', ''b''], returnType = Some ''void'', body = b\<rparr>
   = lines_text
      [''/**'', '' * <summary>'', '' * Adds two numbers.'', '' * </summary>'',
       '' * <param name='' @ [dq] @ ''a'' @ [dq] @ ''></param>'',
       '' * <param name='' @ [dq] @ ''b'' @ [dq] @ ''></param>'',
       '' */'']
   \<and> count_list (buildDoc [] ''Adds two numbers.''
     \<lparr>name = Some ''add'', params = [''a'', ''b''], returnType = Some ''void'', body = b\<rparr>) nl = 7"
  by (simp add: buildDoc_def nl_def dq_def)

theorem buildDoc_add_six_lines_counterexample:
  "count_list
     (buildDoc [] ''Adds two numbers.''
        \<lparr>name = Some ''add'', params = [''a'', ''b''], returnType = Some ''void'',
         body = ''function add(a, b) { return a + b; }''\<rparr>) nl \<noteq> 6"
  by code_simp

text \<open>
  Claim C3. When no keyword \<open>function\<close>, \<open>const\<close>, \<open>let\<close> or \<open>var\<close> followed by an
  identifier occurs in the text, the name is taken from the second alternative of the
  name expression. That alternative wants the identifier to be followed by \<open>=\<close> and an
  opening parenthesis (with optional whitespace and an optional \<open>async\<close> in between) or
  by \<open>:\<close> and an opening parenthesis; an identifier followed directly by an opening
  parenthesis is not enough. Where the alternative matches, the name is that identifier:
  the leftmost identifier of the text that is followed by such a tail, taken whole. It is
  the longest run of word characters at its place, no word character stands before it,
  and no identifier with such a tail starts further left.
\<close>

theorem name_from_assignment:
  assumes nk: "\<not> contains_match name_keyword_rx text"
    and na: "contains_match name_assign_rx text"
  shows "\<exists>info pre w tail post.
     parseFunctionFromText text = Inr info \<and> name info = Some w \<and>
     text = pre @ w @ tail @ post \<and>
     w \<in> lang (Plus Word) \<and> tail \<in> lang name_tail_rx \<and>
     w = takeWhile is_word (w @ tail @ post) \<and>
     (pre = [] \<or> \<not> is_word (last pre)) \<and>
     (\<forall>pre' w' tail' post'.
        text = pre' @ w' @ tail' @ post' \<and> w' \<in> lang (Plus Word) \<and> tail' \<in> lang name_tail_rx
        \<longrightarrow> length pre \<le> length pre')"
proof -
  from na have "contains_match name_rx text" by (simp add: contains_match_name_rx)
  then have "search name_rx text \<noteq> None" by (simp add: search_None_contains)
  then obtain m where m: "search name_rx text = Some m" by blast
  from search_Some_leftmost [OF m] obtain pre t s' where
    t: "text = pre @ t" "(m, s') \<in> set (ms name_rx Map.empty t)" and
    left: "\<forall>p q. text = p @ q \<and> length p < length pre \<longrightarrow> ms name_rx Map.empty q = []"
    by blast
  from t(2) have "(m, s') \<in> set (ms (Alt name_keyword_rx name_assign_rx) Map.empty t)"
    by (simp only: name_rx_def)
  then consider "(m, s') \<in> set (ms name_keyword_rx Map.empty t)"
    | "(m, s') \<in> set (ms name_assign_rx Map.empty t)"
    by auto
  then have as: "(m, s') \<in> set (ms name_assign_rx Map.empty t)"
  proof cases
    case 1
    from ms_sound [OF 1] obtain u where "u \<in> lang name_keyword_rx" "t = u @ s'" by blast
    with t(1) have "contains_match name_keyword_rx text"
      unfolding contains_match_def by blast
    with nk show ?thesis by simp
  next
    case 2
    then show ?thesis .
  qed
  from name_assign_group [OF as] obtain u v where
    uv: "m 2 = Some u" "m 1 = None" "u \<in> lang (Plus Word)" "v \<in> lang name_tail_rx"
      "t = u @ v @ s'" by auto
  from parse_shape [of "text"] obtain ps where
    p: "parseFunctionFromText text =
      Inr \<lparr>name = (case search name_rx text of
                      Some m \<Rightarrow> js_or (m 1) (m 2) | None \<Rightarrow> Some ''unknown''),
           params = ps,
           returnType = (case search return_rx text of Some m \<Rightarrow> m 1 | None \<Rightarrow> Some ''void''),
           body = text\<rparr>" by blast
  let ?info = "\<lparr>name = (case search name_rx text of
                      Some m \<Rightarrow> js_or (m 1) (m 2) | None \<Rightarrow> Some ''unknown''),
           params = ps,
           returnType = (case search return_rx text of Some m \<Rightarrow> m 1 | None \<Rightarrow> Some ''void''),
           body = text\<rparr>"
  have nm: "name ?info = Some u" using m uv(1,2) by (simp add: js_or_def)
  have whole: "u = takeWhile is_word (u @ v @ s')"
    using whole_word [OF uv(3,4), of s'] by simp
  have boundary: "pre = [] \<or> \<not> is_word (last pre)"
  proof (rule ccontr)
    assume "\<not> (pre = [] \<or> \<not> is_word (last pre))"
    then have ne: "pre \<noteq> []" and w: "is_word (last pre)" by simp_all
    from ne have pe: "pre = butlast pre @ [last pre]" by simp
    have "last pre # u \<in> lang (Plus Word)" using uv(3) w by simp
    from assign_match_nonempty [OF this uv(4), of s']
    have "ms name_rx Map.empty (last pre # t) \<noteq> []" using uv(5) by simp
    moreover have "text = butlast pre @ (last pre # t)" using t(1) pe
      by (metis append.assoc append_Cons append_Nil)
    moreover have "length (butlast pre) < length pre" using ne by simp
    ultimately show False using left by blast
  qed
  have leftmost: "\<forall>pre' w' tail' post'.
        text = pre' @ w' @ tail' @ post' \<and> w' \<in> lang (Plus Word) \<and> tail' \<in> lang name_tail_rx
        \<longrightarrow> length pre \<le> length pre'"
  proof (intro allI impI)
    fix pre' w' tail' post'
    assume a: "text = pre' @ w' @ tail' @ post' \<and> w' \<in> lang (Plus Word) \<and> tail' \<in> lang name_tail_rx"
    show "length pre \<le> length pre'"
    proof (rule ccontr)
      assume "\<not> length pre \<le> length pre'"
      then have "length pre' < length pre" by simp
      with a left have "ms name_rx Map.empty (w' @ tail' @ post') = []" by blast
      moreover from a assign_match_nonempty [of w' tail' post']
      have "ms name_rx Map.empty (w' @ tail' @ post') \<noteq> []" by blast
      ultimately show False by simp
    qed
  qed
  from p nm t(1) uv(3,4,5) whole boundary leftmost have
    "parseFunctionFromText text = Inr ?info \<and> name ?info = Some u \<and>
     text = pre @ u @ v @ s' \<and>
     u \<in> lang (Plus Word) \<and> v \<in> lang name_tail_rx \<and>
     u = takeWhile is_word (u @ v @ s') \<and>
     (pre = [] \<or> \<not> is_word (last pre)) \<and>
     (\<forall>pre' w' tail' post'.
        text = pre' @ w' @ tail' @ post' \<and> w' \<in> lang (Plus Word) \<and> tail' \<in> lang name_tail_rx
        \<longrightarrow> length pre \<le> length pre')"
    by simp
  then show ?thesis
    by (intro exI [of _ ?info] exI [of _ pre] exI [of _ u] exI [of _ v] exI [of _ s'])
qed

theorem name_from_assignment_witness:
  "\<not> contains_match name_keyword_rx ''mul = (a, b) => a * b''
   \<and> contains_match name_assign_rx ''mul = (a, b) => a * b''
   \<and> (\<exists>info. parseFunctionFromText ''mul = (a, b) => a * b'' = Inr info
         \<and> name info = Some ''mul'')"
proof -
  let ?T = "''mul = (a, b) => a * b''"
  have "search name_keyword_rx ?T = None" by code_simp
  then have a: "\<not> contains_match name_keyword_rx ?T" by (rule no_match_by_search)
  have "search name_assign_rx ?T \<noteq> None" by code_simp
  then have b: "contains_match name_assign_rx ?T" by (rule match_by_search)
  from name_from_assignment [OF a b] obtain info pre w tail post where
    r: "parseFunctionFromText ?T = Inr info" "name info = Some w"
      "?T = pre @ w @ tail @ post" "w = takeWhile is_word (w @ tail @ post)"
      "\<forall>pre' w' tail' post'.
        ?T = pre' @ w' @ tail' @ post' \<and> w' \<in> lang (Plus Word) \<and> tail' \<in> lang name_tail_rx
        \<longrightarrow> length pre \<le> length pre'"
    by blast
  have w0: "''mul'' \<in> lang (Plus Word)" by (simp add: is_word_def)
  have "list_ex (\<lambda>p. snd p = []) (ms name_tail_rx Map.empty '' = ('')" by code_simp
  then have t0: "'' = ('' \<in> lang name_tail_rx" by (rule lang_by_matcher)
  have "?T = [] @ ''mul'' @ '' = ('' @ ''a, b) => a * b''" by simp
  with r(5) w0 t0 have "length pre \<le> length ([]::string)" by blast
  then have "pre = []" by simp
  with r(3,4) have "w = takeWhile is_word ?T" by simp
  also have "\<dots> = ''mul''" by (simp add: is_word_def)
  finally have "name info = Some ''mul''" using r(2) by simp
  with r(1) have "\<exists>info. parseFunctionFromText ?T = Inr info \<and> name info = Some ''mul''"
    by blast
  with a b show ?thesis by simp
qed

text \<open>The text \<open>foo(a)\<close> has no keyword, and the identifier \<open>foo\<close> stands directly before
  an opening parenthesis; the name is \<open>unknown\<close> all the same.\<close>

theorem name_call_counterexample:
  "\<not> contains_match name_keyword_rx ''foo(a)''
   \<and> contains_match spec_name_call_rx ''foo(a)''
   \<and> parseFunctionFromText ''foo(a)''
       = Inr \<lparr>name = Some ''unknown'', params = [''a''], returnType = Some ''void'',
              body = ''foo(a)''\<rparr>"
proof -
  have "search name_keyword_rx ''foo(a)'' = None" by code_simp
  then have a: "\<not> contains_match name_keyword_rx ''foo(a)''"
    by (rule no_match_by_search)
  have "search spec_name_call_rx ''foo(a)'' \<noteq> None" by code_simp
  then have b: "contains_match spec_name_call_rx ''foo(a)''"
    by (rule match_by_search)
  have c: "parseFunctionFromText ''foo(a)''
       = Inr \<lparr>name = Some ''unknown'', params = [''a''], returnType = Some ''void'',
              body = ''foo(a)''\<rparr>" by code_simp
  from a b c show ?thesis by simp
qed

text \<open>
  Claim C4. For every document and every cursor line of it, if no line among the cursor
  line and the 20 lines above it matches a declaration pattern, the Locator returns
  \<open>null\<close>: no \<open>FunctionInfo\<close> and no start line. (The cursor line is a line of the
  document, as \<open>lineAt\<close> requires of its argument.)
\<close>

theorem no_declaration_in_window_gives_null:
  assumes "cursorLine < length document"
    and "\<forall>k. k \<le> cursorLine \<and> cursorLine \<le> k + 20 \<longrightarrow> \<not> matchesPattern (document ! k)"
  shows "detectFunctionAtCursor document cursorLine = Inr None"
proof -
  have "findStart document cursorLine (int cursorLine) = Inr None"
  proof (rule findStart_none [OF assms(1)])
    show "int cursorLine \<le> int cursorLine" by simp
    fix k assume "max 0 (int cursorLine - 20) \<le> int k" "int k \<le> int cursorLine"
    then have "k \<le> cursorLine \<and> cursorLine \<le> k + 20" by auto
    with assms(2) show "\<not> matchesPattern (document ! k)" by blast
  qed
  then show ?thesis by (simp add: detectFunctionAtCursor_def)
qed

theorem no_declaration_in_window_gives_null_witness:
  "(25::nat) < length (''function f() {'' # replicate 25 ''  x;'')
   \<and> matchesPattern ((''function f() {'' # replicate 25 ''  x;'') ! 0)
   \<and> \<not> matchesPattern ''  x;''
   \<and> detectFunctionAtCursor (''function f() {'' # replicate 25 ''  x;'') 25 = Inr None"
proof -
  let ?d = "''function f() {'' # replicate 25 ''  x;''"
  have a: "(25::nat) < length ?d" by simp
  have b: "\<forall>k. k \<le> 25 \<and> (25::nat) \<le> k + 20 \<longrightarrow> \<not> matchesPattern (?d ! k)"
  proof (intro allI impI)
    fix k :: nat assume k: "k \<le> 25 \<and> 25 \<le> k + 20"
    then obtain k' where k': "k = Suc k'" "k' < 25" by (cases k) auto
    then have "?d ! k = ''  x;''" by simp
    then show "\<not> matchesPattern (?d ! k)" using not_decl_body_line by simp
  qed
  have c: "matchesPattern (?d ! 0)" by code_simp
  from a c not_decl_body_line no_declaration_in_window_gives_null [OF a b] show ?thesis by simp
qed

text \<open>
  Claim C5. The forward scan stops at the first scanned line where the running brace
  count is zero and the line itself contains an opening brace: the text it accumulates
  ends with that line and \<open>endLine\<close> is that line. The running count is the number of
  opening braces minus the number of closing braces in the lines from the declaration
  line on. In particular a declaration line that contains an opening brace and as many
  closing as opening braces ends the scan on the declaration line itself. Containing
  both kinds of brace is not enough: the counts have to agree.
\<close>

theorem scan_stops_at_first_stop_line:
  "(startLine \<le> j \<and> j < length document \<and> j \<le> startLine + 101 \<and>
    stopLine document startLine j \<and>
    (\<forall>k. startLine \<le> k \<and> k < j \<longrightarrow> \<not> stopLine document startLine k)
    \<longrightarrow> functionText (scanFrom document startLine)
          = lines_text (take (j + 1 - startLine) (drop startLine document))
        \<and> endLine (scanFrom document startLine) = j)
   \<and> (startLine < length document \<and> CHR ''{'' \<in> set (document ! startLine) \<and>
      count_list (document ! startLine) (CHR ''{'')
        = count_list (document ! startLine) (CHR ''}'')
    \<longrightarrow> functionText (scanFrom document startLine) = document ! startLine @ [nl]
        \<and> endLine (scanFrom document startLine) = startLine)"
proof (intro conjI impI)
  assume h: "startLine \<le> j \<and> j < length document \<and> j \<le> startLine + 101 \<and>
    stopLine document startLine j \<and>
    (\<forall>k. startLine \<le> k \<and> k < j \<longrightarrow> \<not> stopLine document startLine k)"
  then have "scanFrom document startLine =
     \<lparr>braceCount = 0, endLine = j,
      functionText = lines_text (take (j + 1 - startLine) (drop startLine document))\<rparr>"
    by (intro scanFrom_stop) (auto simp: stopsAt_stopLine)
  then show "functionText (scanFrom document startLine)
          = lines_text (take (j + 1 - startLine) (drop startLine document))"
    and "endLine (scanFrom document startLine) = j" by simp_all
next
  assume h: "startLine < length document \<and> CHR ''{'' \<in> set (document ! startLine) \<and>
      count_list (document ! startLine) (CHR ''{'')
        = count_list (document ! startLine) (CHR ''}'')"
  then have "braceBalance (document ! startLine) = 0" by (simp add: balance_eq_counts)
  with h have "stopsAt document startLine startLine"
    by (simp add: stopsAt_def runFrom_self countBraces_balance)
  with h have "scanFrom document startLine =
     \<lparr>braceCount = 0, endLine = startLine,
      functionText = lines_text (take (startLine + 1 - startLine) (drop startLine document))\<rparr>"
    by (intro scanFrom_stop) auto
  with h show "functionText (scanFrom document startLine) = document ! startLine @ [nl]"
    and "endLine (scanFrom document startLine) = startLine"
    by (simp_all add: take_Suc_drop)
qed

theorem scan_stops_at_first_stop_line_witness:
  "(1::nat) < length [''function f()'', ''{ return 1; }'', ''let y = 2;'']
   \<and> stopLine [''function f()'', ''{ return 1; }'', ''let y = 2;''] 0 1
   \<and> \<not> stopLine [''function f()'', ''{ return 1; }'', ''let y = 2;''] 0 0
   \<and> functionText (scanFrom [''function f()'', ''{ return 1; }'', ''let y = 2;''] 0)
       = lines_text [''function f()'', ''{ return 1; }'']
   \<and> endLine (scanFrom [''function f()'', ''{ return 1; }'', ''let y = 2;''] 0) = 1
   \<and> (0::nat) < length [''const f = () => { return 1; }'', ''let y = 2;'']
   \<and> CHR ''{'' \<in> set ([''const f = () => { return 1; }'', ''let y = 2;''] ! 0)
   \<and> count_list ([''const f = () => { return 1; }'', ''let y = 2;''] ! 0) (CHR ''{'')
       = count_list ([''const f = () => { return 1; }'', ''let y = 2;''] ! 0) (CHR ''}'')
   \<and> functionText (scanFrom [''const f = () => { return 1; }'', ''let y = 2;''] 0)
       = ''const f = () => { return 1; }'' @ [nl]
   \<and> endLine (scanFrom [''const f = () => { return 1; }'', ''let y = 2;''] 0) = 0"
proof -
  let ?d = "[''function f()'', ''{ return 1; }'', ''let y = 2;'']"
  let ?e = "[''const f = () => { return 1; }'', ''let y = 2;'']"
  have s1: "stopLine ?d 0 1" by (simp add: stopLine_def balanceAfter_def braceBalance_def)
  have s0: "\<not> stopLine ?d 0 0" by (simp add: stopLine_def balanceAfter_def braceBalance_def)
  have h1: "(0::nat) \<le> 1 \<and> (1::nat) < length ?d \<and> (1::nat) \<le> 0 + 101 \<and> stopLine ?d 0 1
     \<and> (\<forall>k. 0 \<le> k \<and> k < 1 \<longrightarrow> \<not> stopLine ?d 0 k)"
    using s1 s0 by auto
  have h2: "(0::nat) < length ?e \<and> CHR ''{'' \<in> set (?e ! 0) \<and>
      count_list (?e ! 0) (CHR ''{'') = count_list (?e ! 0) (CHR ''}'')"
    by simp
  from scan_stops_at_first_stop_line [of 0 1 ?d] h1
  have c1: "functionText (scanFrom ?d 0) = lines_text (take (1 + 1 - 0) (drop 0 ?d))
            \<and> endLine (scanFrom ?d 0) = 1" by blast
  from scan_stops_at_first_stop_line [of 0 0 ?e] h2
  have c2: "functionText (scanFrom ?e 0) = ?e ! 0 @ [nl] \<and> endLine (scanFrom ?e 0) = 0" by blast
  from s1 s0 h2 c1 c2 show ?thesis by (simp add: numeral_2_eq_2)
qed

text \<open>A single-line arrow function whose string literal holds a closing brace contains
  both kinds of brace, yet its count ends at -1 and the scan reads on.\<close>

theorem both_braces_on_declaration_line_counterexample:
  "matchesPattern (''const f = () => { return '' @ [dq] @ ''}'' @ [dq] @ ''; }'')
   \<and> CHR ''{'' \<in> set (''const f = () => { return '' @ [dq] @ ''}'' @ [dq] @ ''; }'')
   \<and> CHR ''}'' \<in> set (''const f = () => { return '' @ [dq] @ ''}'' @ [dq] @ ''; }'')
   \<and> functionText
        (scanFrom [''const f = () => { return '' @ [dq] @ ''}'' @ [dq] @ ''; }'',
                   ''let y = 2;''] 0)
       = lines_text [''const f = () => { return '' @ [dq] @ ''}'' @ [dq] @ ''; }'',
                     ''let y = 2;'']"
  by code_simp

text \<open>
  Claim C6. For every text the Extractor returns a result in which \<open>returnType\<close> is
  \<open>void\<close> when no part of the text matches the return-type expression, and \<open>name\<close> is
  \<open>unknown\<close> when no part of the text matches either alternative of the name expression.
\<close>

theorem sentinels_when_nothing_matches:
  "\<exists>info. parseFunctionFromText text = Inr info
     \<and> (\<not> contains_match return_rx text \<longrightarrow> returnType info = Some ''void'')
     \<and> (\<not> contains_match name_keyword_rx text \<and> \<not> contains_match name_assign_rx text
          \<longrightarrow> name info = Some ''unknown'')"
proof -
  from parse_shape [of "text"] obtain ps where
    p: "parseFunctionFromText text =
      Inr \<lparr>name = (case search name_rx text of
                      Some m \<Rightarrow> js_or (m 1) (m 2) | None \<Rightarrow> Some ''unknown''),
           params = ps,
           returnType = (case search return_rx text of Some m \<Rightarrow> m 1 | None \<Rightarrow> Some ''void''),
           body = text\<rparr>" by blast
  let ?info = "\<lparr>name = (case search name_rx text of
                      Some m \<Rightarrow> js_or (m 1) (m 2) | None \<Rightarrow> Some ''unknown''),
           params = ps,
           returnType = (case search return_rx text of Some m \<Rightarrow> m 1 | None \<Rightarrow> Some ''void''),
           body = text\<rparr>"
  have r: "\<not> contains_match return_rx text \<longrightarrow> returnType ?info = Some ''void''"
  proof
    assume "\<not> contains_match return_rx text"
    then have "search return_rx text = None" by (simp add: search_None_contains)
    then show "returnType ?info = Some ''void''" by simp
  qed
  have n: "\<not> contains_match name_keyword_rx text \<and> \<not> contains_match name_assign_rx text
          \<longrightarrow> name ?info = Some ''unknown''"
  proof
    assume "\<not> contains_match name_keyword_rx text \<and> \<not> contains_match name_assign_rx text"
    then have "\<not> contains_match name_rx text" by (simp add: contains_match_name_rx)
    then have "search name_rx text = None" by (simp add: search_None_contains)
    then show "name ?info = Some ''unknown''" by simp
  qed
  from p r n show ?thesis by (intro exI [of _ ?info] conjI)
qed

theorem sentinels_when_nothing_matches_witness:
  "\<not> contains_match return_rx ''foo(a)''
   \<and> \<not> contains_match name_keyword_rx ''foo(a)'' \<and> \<not> contains_match name_assign_rx ''foo(a)''
   \<and> (\<exists>info. parseFunctionFromText ''foo(a)'' = Inr info
         \<and> returnType info = Some ''void'' \<and> name info = Some ''unknown'')"
proof -
  have "search return_rx ''foo(a)'' = None" by code_simp
  then have a: "\<not> contains_match return_rx ''foo(a)''" by (rule no_match_by_search)
  have "search name_keyword_rx ''foo(a)'' = None" by code_simp
  then have b: "\<not> contains_match name_keyword_rx ''foo(a)''" by (rule no_match_by_search)
  have "search name_assign_rx ''foo(a)'' = None" by code_simp
  then have c: "\<not> contains_match name_assign_rx ''foo(a)''" by (rule no_match_by_search)
  from sentinels_when_nothing_matches [of "''foo(a)''"] a b c show ?thesis by blast
qed

text \<open>
  Claim C7. The forward scan reads a bounded number of lines whether or not the brace
  count returns to zero: the text it accumulates is the text of at most 102 consecutive
  lines from the declaration line on, that is, the declaration line and at most 101
  lines beyond it. The test \<open>i - startLine > 100\<close> comes after line \<open>i\<close> has been read, so
  the line 101 beyond the declaration line is still read, which is one more than a cap
  of 100 lines.
\<close>

theorem scan_reads_at_most_102_lines:
  "\<exists>n. n \<le> 102 \<and>
     functionText (scanFrom document startLine) = lines_text (take n (drop startLine document))"
  using scanFrom_bound [of startLine document] by blast

theorem scan_reads_102_lines_counterexample:
  "functionText (scanFrom (''function f()'' # replicate 100 ''x'' @ [''LAST'', ''never'']) 0)
     = lines_text (''function f()'' # replicate 100 ''x'' @ [''LAST''])
   \<and> length (''function f()'' # replicate 100 ''x'' @ [''LAST'']) = 102"
  by code_simp

text \<open>
  Claim C8. The Extractor is total and never throws: for every text it returns a
  \<open>FunctionInfo\<close> whose name and return type are defined and not empty, whose body is the
  text, and which carries the sentinels \<open>unknown\<close> and \<open>void\<close> when the name and the
  return type cannot be recovered. The Locator never throws either, for every document
  and every cursor line of it.
\<close>

theorem extractor_and_locator_never_throw:
  "(\<exists>n ps rt. parseFunctionFromText text =
        Inr \<lparr>name = Some n, params = ps, returnType = Some rt, body = text\<rparr>
      \<and> n \<noteq> [] \<and> rt \<noteq> []
      \<and> (\<not> contains_match name_rx text \<longrightarrow> n = ''unknown'')
      \<and> (\<not> contains_match return_rx text \<longrightarrow> rt = ''void''))
   \<and> (cursorLine < length document \<longrightarrow>
        (\<exists>r. detectFunctionAtCursor document cursorLine = Inr r))"
proof (rule conjI)
  from parse_total [of "text"] show "\<exists>n ps rt. parseFunctionFromText text =
        Inr \<lparr>name = Some n, params = ps, returnType = Some rt, body = text\<rparr>
      \<and> n \<noteq> [] \<and> rt \<noteq> []
      \<and> (\<not> contains_match name_rx text \<longrightarrow> n = ''unknown'')
      \<and> (\<not> contains_match return_rx text \<longrightarrow> rt = ''void'')"
    by (simp only: search_None_contains)
next
  show "cursorLine < length document \<longrightarrow>
        (\<exists>r. detectFunctionAtCursor document cursorLine = Inr r)"
  proof
    assume c: "cursorLine < length document"
    from findStart_total [OF c] obtain r where
      r: "findStart document cursorLine (int cursorLine) = Inr r" by blast
    show "\<exists>r. detectFunctionAtCursor document cursorLine = Inr r"
    proof (cases r)
      case None
      with r show ?thesis by (simp add: detectFunctionAtCursor_def)
    next
      case (Some startLine)
      from parse_total [of "functionText (scanFrom document startLine)"]
      obtain info where "parseFunctionFromText (functionText (scanFrom document startLine)) = Inr info"
        by blast
      with r Some show ?thesis by (simp add: detectFunctionAtCursor_def)
    qed
  qed
qed

theorem extractor_and_locator_never_throw_witness:
  "(\<exists>n ps rt. parseFunctionFromText ''}{ not a function'' =
        Inr \<lparr>name = Some n, params = ps, returnType = Some rt, body = ''}{ not a function''\<rparr>
      \<and> n = ''unknown'' \<and> rt = ''void'')
   \<and> \<not> contains_match name_rx ''}{ not a function''
   \<and> \<not> contains_match return_rx ''}{ not a function''
   \<and> (1::nat) < length [''function f() {'', ''}'']
   \<and> (\<exists>r. detectFunctionAtCursor [''function f() {'', ''}''] 1 = Inr r)"
proof -
  have "search name_rx ''}{ not a function'' = None" by code_simp
  then have a: "\<not> contains_match name_rx ''}{ not a function''" by (rule no_match_by_search)
  have "search return_rx ''}{ not a function'' = None" by code_simp
  then have b: "\<not> contains_match return_rx ''}{ not a function''" by (rule no_match_by_search)
  have c: "(1::nat) < length [''function f() {'', ''}'']" by simp
  from extractor_and_locator_never_throw [of "''}{ not a function''" 1 "[''function f() {'', ''}'']"]
    a b c show ?thesis by blast
qed

text \<open>
  Claim C9. The parameter list can contain the empty string. In \<open>(a, : number)\<close> the
  piece \<open>: number\<close> is not empty after trimming, so it passes the emptiness filter, and
  stripping the annotation afterwards leaves the empty name. The Formatter emits no
  \<open>param\<close> tag for an empty name: the block for the parameters \<open>a\<close> and the empty string
  has the one tag for \<open>a\<close>, and in general removing the empty names from the parameter
  list does not change the block.
\<close>

theorem empty_parameter_name:
  "parseFunctionFromText ''(a, : number)''
     = Inr \<lparr>name = Some ''unknown'', params = [''a'', ''''], returnType = Some ''void'',
            body = ''(a, : number)''\<rparr>
   \<and> filter (\<lambda>p. length p > 0) (map trim (split_js (CHR '','') ''a, : number''))
       = [''a'', '': number'']
   \<and> paramName '': number'' = Inr ''''
   \<and> buildDoc indent summary
        \<lparr>name = Some ''unknown'', params = [''a'', ''''], returnType = Some ''void'',
         body = ''(a, : number)''\<rparr>
       = lines_text
          [indent @ ''/**'', indent @ '' * <summary>'', indent @ '' * '' @ summary,
           indent @ '' * </summary>'',
           indent @ '' * <param name='' @ [dq] @ ''a'' @ [dq] @ ''></param>'',
           indent @ '' */'']
   \<and> buildDoc indent summary (info\<lparr>params := ps\<rparr>)
       = buildDoc indent summary (info\<lparr>params := filter (\<lambda>p. p \<noteq> []) ps\<rparr>)"
proof -
  have a: "parseFunctionFromText ''(a, : number)''
     = Inr \<lparr>name = Some ''unknown'', params = [''a'', ''''], returnType = Some ''void'',
            body = ''(a, : number)''\<rparr>" by code_simp
  have b: "filter (\<lambda>p. length p > 0) (map trim (split_js (CHR '','') ''a, : number''))
       = [''a'', '': number'']" by code_simp
  have c: "paramName '': number'' = Inr ''''" by code_simp
  have d: "buildDoc indent summary
        \<lparr>name = Some ''unknown'', params = [''a'', ''''], returnType = Some ''void'',
         body = ''(a, : number)''\<rparr>
       = lines_text
          [indent @ ''/**'', indent @ '' * <summary>'', indent @ '' * '' @ summary,
           indent @ '' * </summary>'',
           indent @ '' * <param name='' @ [dq] @ ''a'' @ [dq] @ ''></param>'',
           indent @ '' */'']"
    by (simp add: buildDoc_def)
  from a b c d buildDoc_skip_empty [where info = info and ps = ps and indent = indent
      and summary = summary]
  show ?thesis by simp
qed

text \<open>
  Claim C10. For every document and every cursor line of it, once a line among the
  cursor line and the 20 lines above it matches a declaration pattern, the Locator
  returns a result: a \<open>FunctionInfo\<close> together with the start line, which is the nearest
  line at or above the cursor that matches a pattern. The body of the \<open>FunctionInfo\<close> is
  the text of at least one and at most 102 lines from the start line on. When the stop
  condition holds on no scanned line (the running brace count is never zero on a line
  with an opening brace, for example because an opening brace is never closed, or
  because no opening brace appears at all), the body is the text of all the lines up to
  the end of the document or up to the cap, whichever comes first.
\<close>

theorem declaration_in_window_gives_result:
  assumes c: "cursorLine < length document"
    and k: "k \<le> cursorLine" "cursorLine \<le> k + 20" "matchesPattern (document ! k)"
  shows "\<exists>info startLine n.
     detectFunctionAtCursor document cursorLine = Inr (Some (info, startLine))
     \<and> startLine \<le> cursorLine \<and> cursorLine \<le> startLine + 20
     \<and> matchesPattern (document ! startLine)
     \<and> (\<forall>l. startLine < l \<and> l \<le> cursorLine \<longrightarrow> \<not> matchesPattern (document ! l))
     \<and> 1 \<le> n \<and> n \<le> 102
     \<and> body info = lines_text (take n (drop startLine document))
     \<and> ((\<forall>l. startLine \<le> l \<and> l < length document \<and> l \<le> startLine + 101
              \<longrightarrow> \<not> stopLine document startLine l)
          \<longrightarrow> body info = lines_text (take 102 (drop startLine document)))
     \<and> ((\<forall>l. startLine \<le> l \<and> l < length document \<longrightarrow> CHR ''{'' \<notin> set (document ! l))
          \<longrightarrow> body info = lines_text (take 102 (drop startLine document)))"
proof -
  from findStart_found [OF c k] obtain j where
    j: "findStart document cursorLine (int cursorLine) = Inr (Some j)"
      "j \<le> cursorLine" "cursorLine \<le> j + 20" "matchesPattern (document ! j)"
      "\<forall>l. j < l \<and> l \<le> cursorLine \<longrightarrow> \<not> matchesPattern (document ! l)" by blast
  from parse_total [of "functionText (scanFrom document j)"] obtain n ps rt where
    p: "parseFunctionFromText (functionText (scanFrom document j)) =
        Inr \<lparr>name = Some n, params = ps, returnType = Some rt,
             body = functionText (scanFrom document j)\<rparr>" by blast
  let ?info = "\<lparr>name = Some n, params = ps, returnType = Some rt,
             body = functionText (scanFrom document j)\<rparr>"
  have d: "detectFunctionAtCursor document cursorLine = Inr (Some (?info, j))"
    using j(1) p by (simp add: detectFunctionAtCursor_def)
  from j(2) c have jl: "j < length document" by simp
  from scanFrom_bound [of j document] jl obtain m where
    m: "m \<le> 102" "1 \<le> m"
      "functionText (scanFrom document j) = lines_text (take m (drop j document))" by blast
  have gen: "(\<forall>l. j \<le> l \<and> l < length document \<and> l \<le> j + 101 \<longrightarrow> \<not> stopLine document j l)
          \<longrightarrow> body ?info = lines_text (take 102 (drop j document))"
  proof
    assume ns: "\<forall>l. j \<le> l \<and> l < length document \<and> l \<le> j + 101 \<longrightarrow> \<not> stopLine document j l"
    have "functionText (scanFrom document j) = lines_text (take 102 (drop j document))
       \<and> endLine (scanFrom document j) = j"
    proof (rule scanFrom_nostop)
      fix l assume "j \<le> l" "l < length document" "l \<le> j + 101"
      with ns show "\<not> stopsAt document j l" by (simp add: stopsAt_stopLine)
    qed
    then show "body ?info = lines_text (take 102 (drop j document))" by simp
  qed
  have nb: "(\<forall>l. j \<le> l \<and> l < length document \<longrightarrow> CHR ''{'' \<notin> set (document ! l))
          \<longrightarrow> body ?info = lines_text (take 102 (drop j document))"
  proof
    assume nob: "\<forall>l. j \<le> l \<and> l < length document \<longrightarrow> CHR ''{'' \<notin> set (document ! l)"
    then have "\<forall>l. j \<le> l \<and> l < length document \<and> l \<le> j + 101 \<longrightarrow> \<not> stopLine document j l"
      by (simp add: stopLine_def)
    with gen show "body ?info = lines_text (take 102 (drop j document))" by blast
  qed
  have "detectFunctionAtCursor document cursorLine = Inr (Some (?info, j))
     \<and> j \<le> cursorLine \<and> cursorLine \<le> j + 20
     \<and> matchesPattern (document ! j)
     \<and> (\<forall>l. j < l \<and> l \<le> cursorLine \<longrightarrow> \<not> matchesPattern (document ! l))
     \<and> 1 \<le> m \<and> m \<le> 102
     \<and> body ?info = lines_text (take m (drop j document))
     \<and> ((\<forall>l. j \<le> l \<and> l < length document \<and> l \<le> j + 101 \<longrightarrow> \<not> stopLine document j l)
          \<longrightarrow> body ?info = lines_text (take 102 (drop j document)))
     \<and> ((\<forall>l. j \<le> l \<and> l < length document \<longrightarrow> CHR ''{'' \<notin> set (document ! l))
          \<longrightarrow> body ?info = lines_text (take 102 (drop j document)))"
    using d j(2,3,4,5) m gen nb by simp
  then show ?thesis by (intro exI [of _ ?info] exI [of _ j] exI [of _ m])
qed

theorem declaration_in_window_gives_result_witness:
  "(2::nat) < length [''function f() {'', ''  a;'', ''  b;'']
   \<and> matchesPattern ([''function f() {'', ''  a;'', ''  b;''] ! 0)
   \<and> balanceAfter [''function f() {'', ''  a;'', ''  b;''] 0 0 = 1
   \<and> balanceAfter [''function f() {'', ''  a;'', ''  b;''] 0 1 = 1
   \<and> balanceAfter [''function f() {'', ''  a;'', ''  b;''] 0 2 = 1
   \<and> (\<exists>info. detectFunctionAtCursor [''function f() {'', ''  a;'', ''  b;''] 2
                = Inr (Some (info, 0))
         \<and> body info = lines_text [''function f() {'', ''  a;'', ''  b;''])
   \<and> (2::nat) < length [''function f()'', ''  return 1'', ''end'']
   \<and> matchesPattern ([''function f()'', ''  return 1'', ''end''] ! 0)
   \<and> (\<exists>info startLine.
     detectFunctionAtCursor [''function f()'', ''  return 1'', ''end''] 2
       = Inr (Some (info, startLine))
     \<and> startLine \<le> 2
     \<and> matchesPattern ([''function f()'', ''  return 1'', ''end''] ! startLine)
     \<and> body info
         = lines_text (take 102 (drop startLine [''function f()'', ''  return 1'', ''end''])))"
proof -
  let ?c = "[''function f() {'', ''  a;'', ''  b;'']"
  let ?d = "[''function f()'', ''  return 1'', ''end'']"
  have b: "(0::nat) \<le> 2" "(2::nat) \<le> 0 + 20" by simp_all
  have ca: "(2::nat) < length ?c" by simp
  have "matchesPattern ''function f() {''" by code_simp
  then have cm: "matchesPattern (?c ! 0)" by simp
  have n1: "\<not> matchesPattern ''  a;''" by code_simp
  have n2: "\<not> matchesPattern ''  b;''" by code_simp
  have bal: "balanceAfter ?c 0 0 = 1" "balanceAfter ?c 0 1 = 1" "balanceAfter ?c 0 2 = 1"
    by (simp_all add: balanceAfter_def braceBalance_def)
  from declaration_in_window_gives_result [OF ca b cm] obtain info startLine n where
    r: "detectFunctionAtCursor ?c 2 = Inr (Some (info, startLine))"
      "startLine \<le> 2" "matchesPattern (?c ! startLine)"
      "(\<forall>l. startLine \<le> l \<and> l < length ?c \<and> l \<le> startLine + 101
              \<longrightarrow> \<not> stopLine ?c startLine l)
         \<longrightarrow> body info = lines_text (take 102 (drop startLine ?c))"
    by blast
  from r(2) have "startLine = 0 \<or> startLine = 1 \<or> startLine = 2" by auto
  with r(3) n1 n2 have s0: "startLine = 0" by auto
  have "\<forall>l. 0 \<le> l \<and> l < length ?c \<and> l \<le> 0 + 101 \<longrightarrow> \<not> stopLine ?c 0 l"
  proof (intro allI impI)
    fix l :: nat assume "0 \<le> l \<and> l < length ?c \<and> l \<le> 0 + 101"
    then have "l = 0 \<or> l = 1 \<or> l = 2" by auto
    with bal show "\<not> stopLine ?c 0 l" by (auto simp: stopLine_def)
  qed
  with r(4) s0 have "body info = lines_text (take 102 (drop 0 ?c))" by blast
  then have "body info = lines_text ?c" by simp
  with r(1) s0 have c1: "\<exists>info. detectFunctionAtCursor ?c 2 = Inr (Some (info, 0))
         \<and> body info = lines_text ?c" by blast
  have a: "(2::nat) < length ?d" by simp
  have "matchesPattern ''function f()''" by code_simp
  then have m: "matchesPattern (?d ! 0)" by simp
  have nob: "\<And>s l. s \<le> l \<and> l < length ?d \<longrightarrow> CHR ''{'' \<notin> set (?d ! l)"
  proof
    fix s l :: nat assume "s \<le> l \<and> l < length ?d"
    then have "l = 0 \<or> l = 1 \<or> l = 2" by auto
    then show "CHR ''{'' \<notin> set (?d ! l)" by auto
  qed
  from declaration_in_window_gives_result [OF a b m] obtain info' startLine' n' where
    r': "detectFunctionAtCursor ?d 2 = Inr (Some (info', startLine'))"
      "startLine' \<le> 2" "matchesPattern (?d ! startLine')"
      "(\<forall>l. startLine' \<le> l \<and> l < length ?d \<longrightarrow> CHR ''{'' \<notin> set (?d ! l))
         \<longrightarrow> body info' = lines_text (take 102 (drop startLine' ?d))"
    by blast
  from r'(4) nob have "body info' = lines_text (take 102 (drop startLine' ?d))" by blast
  with r'(1,2,3) have "detectFunctionAtCursor ?d 2 = Inr (Some (info', startLine'))
     \<and> startLine' \<le> 2 \<and> matchesPattern (?d ! startLine')
     \<and> body info' = lines_text (take 102 (drop startLine' ?d))" by simp
  then have c2: "\<exists>info startLine. detectFunctionAtCursor ?d 2 = Inr (Some (info, startLine))
     \<and> startLine \<le> 2 \<and> matchesPattern (?d ! startLine)
     \<and> body info = lines_text (take 102 (drop startLine ?d))"
    by (intro exI [of _ info'] exI [of _ startLine'])
  from ca cm bal c1 a m c2 show ?thesis by simp
qed

end
